theory Spec2Isabelle
  imports Main "HOL-Library.Word"
begin

section \<open>The single producer single consumer queue of src/lib/SPSCQueue.h\<close>

text \<open>
  The class \<^verbatim>\<open>SPSCQueue<T, Allocator>\<close> is embedded as a record of its data members and
  one HOL function per member function. \<^verbatim>\<open>size_t\<close> is a 64-bit word, so every \<open>+\<close>,
  \<open>-\<close> and \<open>*\<close> below wraps exactly as the unsigned arithmetic of the source does. The
  two atomics are plain fields: every member function is one atomic step of the model,
  and an execution is a sequence of such steps (the memory orderings are not modelled).
  The constructor of \<^verbatim>\<open>T\<close> is not modelled either: the element constructed in a slot is
  the value passed to the insert. The compile-time assertions on the layout of the class
  say nothing about its behaviour and are left out.
\<close>

type_synonym size_t = "64 word"

definition SIZE_MAX :: size_t where
  "SIZE_MAX = - 1"

text \<open>\<^verbatim>\<open>_cacheLineSize\<close>: the fallback value of the source, 64.\<close>

definition cacheLineSize :: size_t where
  "cacheLineSize = 64"

text \<open>
  \<^verbatim>\<open>_padding = (_cacheLineSize - 1) / sizeof(T) + 1\<close>. The element type enters the model
  only through \<^verbatim>\<open>sizeof(T)\<close>, which is a parameter (at least 1 in C++; 4 for \<^verbatim>\<open>int\<close>, which
  gives a padding of 16 slots, and a padding of one slot from 64 on).
\<close>

definition padding :: "size_t \<Rightarrow> size_t" where
  "padding sizeofT = (cacheLineSize - 1) div sizeofT + 1"

text \<open>
  What can go wrong in a member function: the allocator throws, the \<^verbatim>\<open>assert\<close> of
  \<^verbatim>\<open>pop\<close> fails, and the two kinds of undefined behaviour a slot access can have
  (an index outside the allocated array, the destructor run on raw memory).
\<close>

datatype error = BadAlloc | AssertionFailed | OutOfBounds | DestroyUnconstructed

text \<open>
  The \<^verbatim>\<open>Allocator\<close> template parameter. The constructor has two compile-time branches:
  \<^verbatim>\<open>allocate(n)\<close>, which returns exactly \<open>n\<close> slots or throws, and
  \<^verbatim>\<open>allocate_at_least(n)\<close>, which returns \<^verbatim>\<open>res.count\<close> slots or throws.
  \<open>Allocate ok\<close> is an allocator of the first kind (\<open>ok n\<close>: the request for \<open>n\<close> slots
  succeeds), \<open>AllocateAtLeast f\<close> one of the second (\<open>f n = Some count\<close>, or \<open>None\<close> when
  it throws).
\<close>

datatype allocator = Allocate "size_t \<Rightarrow> bool" | AllocateAtLeast "size_t \<Rightarrow> size_t option"

text \<open>
  The data members. \<open>m_slots\<close> is the allocated array: its length is the number of slots
  the allocator returned, \<open>None\<close> is raw memory and \<open>Some x\<close> a constructed element.
  \<open>m_padding\<close> is the static member \<^verbatim>\<open>_padding\<close>.
\<close>

record 'a SPSCQueue =
  m_padding :: size_t
  m_capacity :: size_t
  m_slots :: "'a option list"
  m_writeIndex :: size_t
  m_readIndex :: size_t
  m_writeIndexCache :: size_t
  m_readIndexCache :: size_t

subsection \<open>Constructor\<close>

definition SPSCQueue_ctor :: "size_t \<Rightarrow> allocator \<Rightarrow> size_t \<Rightarrow> error + 'a SPSCQueue" where
  "SPSCQueue_ctor sizeofT al capacity0 =
    (let pad = padding sizeofT;
         c1 = (if capacity0 < 1 then 1 else capacity0);
         c2 = c1 + 1;
         c3 = (if c2 > SIZE_MAX - 2 * pad then SIZE_MAX - 2 * pad else c2)
     in case al of
          Allocate ok \<Rightarrow>
            if ok (c3 + 2 * pad)
            then Inr \<lparr>m_padding = pad, m_capacity = c3,
                      m_slots = replicate (unat (c3 + 2 * pad)) None,
                      m_writeIndex = 0, m_readIndex = 0,
                      m_writeIndexCache = 0, m_readIndexCache = 0\<rparr>
            else Inl BadAlloc
        | AllocateAtLeast f \<Rightarrow>
            (case f (c3 + 2 * pad) of
               None \<Rightarrow> Inl BadAlloc
             | Some count \<Rightarrow>
                 Inr \<lparr>m_padding = pad, m_capacity = count - 2 * pad,
                      m_slots = replicate (unat count) None,
                      m_writeIndex = 0, m_readIndex = 0,
                      m_writeIndexCache = 0, m_readIndexCache = 0\<rparr>))"

subsection \<open>Producer side\<close>

text \<open>
  Placement new at \<^verbatim>\<open>&_slots[i]\<close> followed by the store of the new write index.
\<close>

definition construct_and_publish ::
  "'a SPSCQueue \<Rightarrow> size_t \<Rightarrow> size_t \<Rightarrow> 'a \<Rightarrow> error + 'a SPSCQueue" where
  "construct_and_publish q i nextWriteIndex v =
    (if unat i < length (m_slots q)
     then Inr (q\<lparr>m_slots := (m_slots q)[unat i := Some v], m_writeIndex := nextWriteIndex\<rparr>)
     else Inl OutOfBounds)"

text \<open>
  The loop \<^verbatim>\<open>while (nextWriteIndex == _readIndexCache) _readIndexCache = _readIndex.load()\<close>
  of \<^verbatim>\<open>emplace\<close>. Run alone (no consumer step in between) it never ends on a full queue:
  that is the value \<open>None\<close>.
\<close>

partial_function (option) emplace_spin :: "'a SPSCQueue \<Rightarrow> size_t \<Rightarrow> 'a SPSCQueue option" where
  "emplace_spin q nextWriteIndex =
    (if nextWriteIndex = m_readIndexCache q
     then emplace_spin (q\<lparr>m_readIndexCache := m_readIndex q\<rparr>) nextWriteIndex
     else Some q)"

declare emplace_spin.simps [code]

definition emplace :: "'a SPSCQueue \<Rightarrow> 'a \<Rightarrow> (error + 'a SPSCQueue) option" where
  "emplace q v =
    (let writeIndex = m_writeIndex q;
         nextWriteIndex = (if writeIndex + 1 = m_capacity q then 0 else writeIndex + 1)
     in case emplace_spin q nextWriteIndex of
          None \<Rightarrow> None
        | Some q1 \<Rightarrow> Some (construct_and_publish q1 (writeIndex + m_padding q1) nextWriteIndex v))"

definition try_emplace :: "'a SPSCQueue \<Rightarrow> 'a \<Rightarrow> error + (bool \<times> 'a SPSCQueue)" where
  "try_emplace q v =
    (let writeIndex = m_writeIndex q;
         nextWriteIndex = (if writeIndex + 1 = m_capacity q then 0 else writeIndex + 1)
     in if nextWriteIndex = m_readIndexCache q
        then (let q1 = q\<lparr>m_readIndexCache := m_readIndex q\<rparr>
              in if nextWriteIndex = m_readIndexCache q1
                 then Inr (False, q1)
                 else map_sum id (Pair True)
                        (construct_and_publish q1 (writeIndex + m_padding q1) nextWriteIndex v))
        else map_sum id (Pair True)
               (construct_and_publish q (writeIndex + m_padding q) nextWriteIndex v))"

definition push :: "'a SPSCQueue \<Rightarrow> 'a \<Rightarrow> (error + 'a SPSCQueue) option" where
  "push q v = emplace q v"

definition try_push :: "'a SPSCQueue \<Rightarrow> 'a \<Rightarrow> error + (bool \<times> 'a SPSCQueue)" where
  "try_push q v = try_emplace q v"

subsection \<open>Consumer side\<close>

text \<open>
  \<^verbatim>\<open>front\<close> returns a pointer into \<^verbatim>\<open>_slots\<close>: here the index of the slot, \<open>None\<close> for
  the null pointer. It may refresh \<^verbatim>\<open>_writeIndexCache\<close>, so it returns the state too.
\<close>

definition front :: "'a SPSCQueue \<Rightarrow> nat option \<times> 'a SPSCQueue" where
  "front q =
    (let readIndex = m_readIndex q
     in if readIndex = m_writeIndexCache q
        then (let q1 = q\<lparr>m_writeIndexCache := m_writeIndex q\<rparr>
              in if m_writeIndexCache q1 = readIndex
                 then (None, q1)
                 else (Some (unat (readIndex + m_padding q1)), q1))
        else (Some (unat (readIndex + m_padding q)), q))"

text \<open>
  \<^verbatim>\<open>pop\<close> runs the destructor of the element at the read index; the model returns that
  element beside the new state, so that the destructor calls of an execution can be
  counted. The \<^verbatim>\<open>assert\<close> is the one of a build with assertions; without it the same
  call goes on to destroy a slot of raw memory, which is an error of the model as well.
\<close>

definition pop :: "'a SPSCQueue \<Rightarrow> error + ('a \<times> 'a SPSCQueue)" where
  "pop q =
    (let readIndex = m_readIndex q
     in if m_writeIndex q = readIndex then Inl AssertionFailed
        else if length (m_slots q) \<le> unat (readIndex + m_padding q) then Inl OutOfBounds
        else (case m_slots q ! unat (readIndex + m_padding q) of
                None \<Rightarrow> Inl DestroyUnconstructed
              | Some x \<Rightarrow>
                  Inr (x, q\<lparr>m_slots := (m_slots q)[unat (readIndex + m_padding q) := None],
                            m_readIndex := (if readIndex + 1 = m_capacity q then 0
                                           else readIndex + 1)\<rparr>)))"

subsection \<open>Observers\<close>

text \<open>
  \<^verbatim>\<open>size\<close>: the difference is a \<^verbatim>\<open>ptrdiff_t\<close>, tested for its sign; \<^verbatim>\<open>diff += _capacity\<close>
  is computed modulo \<open>2 ^ 64\<close> and the result is cast back to \<^verbatim>\<open>size_t\<close>.
\<close>

definition sizeQ :: "'a SPSCQueue \<Rightarrow> size_t" where
  "sizeQ q =
    (let diff = m_writeIndex q - m_readIndex q
     in if sint diff < 0 then diff + m_capacity q else diff)"

definition emptyQ :: "'a SPSCQueue \<Rightarrow> bool" where
  "emptyQ q = (m_writeIndex q = m_readIndex q)"

definition capacity :: "'a SPSCQueue \<Rightarrow> size_t" where
  "capacity q = m_capacity q - 1"

subsection \<open>Destructor\<close>

text \<open>
  \<^verbatim>\<open>while (front()) pop();\<close> The model returns the elements whose destructor ran, in
  the order of the calls. Every round destroys one constructed element or stops with an
  error, so the loop ends in every state.
\<close>

definition constructed :: "'a SPSCQueue \<Rightarrow> nat" where
  "constructed q = length (filter (\<lambda>s. s \<noteq> None) (m_slots q))"

function SPSCQueue_dtor :: "'a SPSCQueue \<Rightarrow> error + ('a list \<times> 'a SPSCQueue)" where
  "SPSCQueue_dtor q =
    (case front q of
       (None, q1) \<Rightarrow> Inr ([], q1)
     | (Some p, q1) \<Rightarrow>
         (case pop q1 of
            Inl e \<Rightarrow> Inl e
          | Inr (x, q2) \<Rightarrow>
              (case SPSCQueue_dtor q2 of
                 Inl e \<Rightarrow> Inl e
               | Inr (xs, q3) \<Rightarrow> Inr (x # xs, q3))))"
  by pat_completeness auto
termination
proof (relation "measure constructed")
  show "wf (measure constructed)" by simp
next
  fix q :: "'a SPSCQueue" and p1 q1 p x2 and y :: "'a \<times> 'a SPSCQueue" and x q2
  assume f: "(p1, q1) = front q" and p: "pop q1 = Inr y" and y: "(x, q2) = y"
  from f have s: "m_slots q1 = m_slots q"
    by (auto simp: front_def Let_def split: if_splits)
  define i where "i = unat (m_readIndex q1 + m_padding q1)"
  from p y have i: "i < length (m_slots q1)" "m_slots q1 ! i = Some x"
      "m_slots q2 = (m_slots q1)[i := None]"
    by (auto simp: pop_def Let_def i_def split: if_splits option.splits)
  have dec: "j < length xs \<Longrightarrow> xs ! j = Some x \<Longrightarrow>
      length (filter (\<lambda>s. s \<noteq> None) (xs[j := None])) < length (filter (\<lambda>s. s \<noteq> None) xs)"
    for j and xs :: "'a option list"
  proof (induction xs arbitrary: j)
    case Nil
    then show ?case by simp
  next
    case (Cons a xs)
    then show ?case by (cases j) auto
  qed
  from dec [OF i(1) i(2)] i(3) s show "(q2, q) \<in> measure constructed"
    by (simp add: constructed_def)
qed

declare SPSCQueue_dtor.simps [simp del]

subsection \<open>Executions\<close>

text \<open>
  The states a queue can be in: constructed, then any sequence of member function
  calls that return. \<open>reach q xs b\<close> also records the history: \<open>xs\<close> are the values
  inserted and not yet removed, oldest first, and \<open>b\<close> tells that \<^verbatim>\<open>front()\<close> has returned
  a valid pointer since the last \<^verbatim>\<open>pop()\<close>. The source requires that of every call of
  \<^verbatim>\<open>pop\<close> ("Call pop() only after front() returns a valid pointer"), so \<^verbatim>\<open>pop\<close> is a step
  only when \<open>b\<close> holds.
\<close>

inductive reach :: "'a SPSCQueue \<Rightarrow> 'a list \<Rightarrow> bool \<Rightarrow> bool" where
  reach_ctor: "SPSCQueue_ctor sizeofT al c = Inr q \<Longrightarrow> reach q [] False"
| reach_try_emplace_true:
    "reach q xs b \<Longrightarrow> try_emplace q v = Inr (True, q') \<Longrightarrow> reach q' (xs @ [v]) b"
| reach_try_emplace_false:
    "reach q xs b \<Longrightarrow> try_emplace q v = Inr (False, q') \<Longrightarrow> reach q' xs b"
| reach_emplace:
    "reach q xs b \<Longrightarrow> emplace q v = Some (Inr q') \<Longrightarrow> reach q' (xs @ [v]) b"
| reach_front:
    "reach q xs b \<Longrightarrow> front q = (p, q') \<Longrightarrow> reach q' xs (p \<noteq> None)"
| reach_pop:
    "reach q xs True \<Longrightarrow> pop q = Inr (x, q') \<Longrightarrow> reach q' (tl xs) False"

text \<open>
  An interleaving of producer and consumer calls. \<open>Push v\<close> is \<^verbatim>\<open>push(v)\<close>; \<open>Pop\<close> is
  the consumer's \<^verbatim>\<open>front()\<close>, a read through the pointer returned, and \<^verbatim>\<open>pop()\<close>.
  \<open>run\<close> returns the values read, in order; it is \<open>None\<close> when a \<^verbatim>\<open>push\<close> spins for ever.
\<close>

datatype 'a op = Push 'a | Pop

definition deref :: "'a SPSCQueue \<Rightarrow> nat option \<Rightarrow> 'a option" where
  "deref q p =
    (case p of
       None \<Rightarrow> None
     | Some i \<Rightarrow> if i < length (m_slots q) then m_slots q ! i else None)"

fun run :: "'a SPSCQueue \<Rightarrow> 'a op list \<Rightarrow> (error + ('a option list \<times> 'a SPSCQueue)) option" where
  "run q [] = Some (Inr ([], q))"
| "run q (Push v # ops) =
    (case push q v of
       None \<Rightarrow> None
     | Some (Inl e) \<Rightarrow> Some (Inl e)
     | Some (Inr q1) \<Rightarrow> run q1 ops)"
| "run q (Pop # ops) =
    (case front q of
       (p, q1) \<Rightarrow>
         (case pop q1 of
            Inl e \<Rightarrow> Some (Inl e)
          | Inr (x, q2) \<Rightarrow>
              (case run q2 ops of
                 None \<Rightarrow> None
               | Some (Inl e) \<Rightarrow> Some (Inl e)
               | Some (Inr (obs, q3)) \<Rightarrow> Some (Inr (deref q1 p # obs, q3)))))"

fun pushed :: "'a op list \<Rightarrow> 'a list" where
  "pushed [] = []"
| "pushed (Push v # ops) = v # pushed ops"
| "pushed (Pop # ops) = pushed ops"

fun pops :: "'a op list \<Rightarrow> nat" where
  "pops [] = 0"
| "pops (Push v # ops) = pops ops"
| "pops (Pop # ops) = Suc (pops ops)"

text \<open>
  \<open>feasible C n ops\<close>: started with \<open>n\<close> elements in the queue, no \<open>Pop\<close> of \<open>ops\<close> finds
  the queue empty and no \<open>Push\<close> finds \<open>C\<close> elements in it.
\<close>

fun feasible :: "nat \<Rightarrow> nat \<Rightarrow> 'a op list \<Rightarrow> bool" where
  "feasible C n [] = True"
| "feasible C n (Push v # ops) = (n < C \<and> feasible C (Suc n) ops)"
| "feasible C n (Pop # ops) = (0 < n \<and> feasible C (n - 1) ops)"

text \<open>Consecutive calls of \<^verbatim>\<open>try_push\<close>, with the value each one returned.\<close>

fun try_push_all :: "'a SPSCQueue \<Rightarrow> 'a list \<Rightarrow> error + (bool list \<times> 'a SPSCQueue)" where
  "try_push_all q [] = Inr ([], q)"
| "try_push_all q (v # vs) =
    (case try_push q v of
       Inl e \<Rightarrow> Inl e
     | Inr (ok, q1) \<Rightarrow>
         (case try_push_all q1 vs of
            Inl e \<Rightarrow> Inl e
          | Inr (oks, q2) \<Rightarrow> Inr (ok # oks, q2)))"

text \<open>
  What \<^verbatim>\<open>allocate_at_least\<close> promises: at least the number of slots asked for.
\<close>

definition allocator_contract :: "allocator \<Rightarrow> bool" where
  "allocator_contract al =
    (case al of
       Allocate ok \<Rightarrow> True
     | AllocateAtLeast f \<Rightarrow> (\<forall>n count. f n = Some count \<longrightarrow> n \<le> count))"

subsection \<open>The ring\<close>

text \<open>
  The cursors count modulo \<open>modulus\<close>: the value of \<^verbatim>\<open>_capacity\<close>, or \<open>2 ^ 64\<close> when that
  is 0 (then only the wrap-around of \<^verbatim>\<open>size_t\<close> brings a cursor back to 0).
  \<open>slot_of q k\<close> is the slot of the \<open>k\<close>-th element ever inserted.
\<close>

definition modulus :: "size_t \<Rightarrow> nat" where
  "modulus cap = (if cap = 0 then 2 ^ 64 else unat cap)"

definition slot_of :: "'a SPSCQueue \<Rightarrow> nat \<Rightarrow> nat" where
  "slot_of q k = unat ((of_nat (k mod modulus (m_capacity q)) :: size_t) + m_padding q)"

text \<open>
  The representation invariant, over four counters that never wrap: \<open>Wn\<close> elements
  have been inserted and \<open>Rn\<close> removed so far, and \<open>Rc\<close>, \<open>Wc\<close> are the values of \<open>Rn\<close>,
  \<open>Wn\<close> when the caches were last refreshed. \<open>xs\<close> are the elements in the queue:
  they are constructed in the slots of the insertions \<open>Rn\<close> to \<open>Wn - 1\<close>, and every other slot
  is raw memory.
\<close>

definition slots_inv :: "'a SPSCQueue \<Rightarrow> nat \<Rightarrow> nat \<Rightarrow> 'a list \<Rightarrow> bool" where
  "slots_inv q Rn Wn xs =
    (length xs = Wn - Rn
     \<and> (\<forall>k. Rn \<le> k \<and> k < Wn \<longrightarrow>
           slot_of q k < length (m_slots q) \<and> m_slots q ! slot_of q k = Some (xs ! (k - Rn)))
     \<and> (\<forall>j < length (m_slots q).
           (\<forall>k. Rn \<le> k \<and> k < Wn \<longrightarrow> slot_of q k \<noteq> j) \<longrightarrow> m_slots q ! j = None))"

definition ring_inv :: "'a SPSCQueue \<Rightarrow> nat \<Rightarrow> nat \<Rightarrow> nat \<Rightarrow> nat \<Rightarrow> 'a list \<Rightarrow> bool" where
  "ring_inv q Rc Rn Wc Wn xs =
    (Rc \<le> Rn \<and> Rn \<le> Wc \<and> Wc \<le> Wn \<and> Wn < Rc + modulus (m_capacity q)
     \<and> m_readIndexCache q = of_nat (Rc mod modulus (m_capacity q))
     \<and> m_readIndex q = of_nat (Rn mod modulus (m_capacity q))
     \<and> m_writeIndexCache q = of_nat (Wc mod modulus (m_capacity q))
     \<and> m_writeIndex q = of_nat (Wn mod modulus (m_capacity q))
     \<and> slots_inv q Rn Wn xs)"

text \<open>
  The storage holds the whole ring and the padding on both sides. It is so after every
  construction that does not wrap \<^verbatim>\<open>_capacity\<close> around.
\<close>

definition storage_ok :: "'a SPSCQueue \<Rightarrow> bool" where
  "storage_ok q =
    (m_capacity q \<noteq> 0
     \<and> unat (m_capacity q) + 2 * unat (m_padding q) \<le> length (m_slots q))"

subsection \<open>Names used in the statements\<close>

text \<open>
  The index after \<open>i\<close> in a ring of \<open>cap\<close> slots, as \<^verbatim>\<open>emplace\<close>, \<^verbatim>\<open>try_emplace\<close> and
  \<^verbatim>\<open>pop\<close> compute it.
\<close>

definition next_index :: "size_t \<Rightarrow> size_t \<Rightarrow> size_t" where
  "next_index cap i = (if i + 1 = cap then 0 else i + 1)"

text \<open>An allocator that never returns more slots than it was asked for.\<close>

definition exact_allocation :: "allocator \<Rightarrow> bool" where
  "exact_allocation al =
    (case al of
       Allocate ok \<Rightarrow> True
     | AllocateAtLeast f \<Rightarrow> (\<forall>n count. f n = Some count \<longrightarrow> count = n))"

subsection \<open>Example states\<close>

text \<open>
  Two allocators that never throw: \<open>ex_alloc\<close> has \<^verbatim>\<open>allocate\<close> only, \<open>ex_at_least\<close> has an
  \<^verbatim>\<open>allocate_at_least\<close> that rounds every request up by one slot. The states are those of
  a queue whose elements, written as natural numbers, have \<^verbatim>\<open>sizeof(T) = 64\<close> (so that the
  padding is one slot):
  \<open>ex0\<close> after \<^verbatim>\<open>SPSCQueue q(2)\<close>, \<open>ex1\<close> and \<open>ex2\<close> after inserting 10 and 20, \<open>ex2f\<close> after
  \<^verbatim>\<open>front()\<close>, \<open>ex3\<close> after \<^verbatim>\<open>pop()\<close>; \<open>ex4\<close> after the calls \<open>ex_ops\<close> on \<open>ex0\<close>;
  \<open>exw0\<close> after \<^verbatim>\<open>SPSCQueue q(SIZE_MAX)\<close> and \<open>exw1\<close> after one insert into it; \<open>exc0\<close>
  after \<^verbatim>\<open>SPSCQueue q(SIZE_MAX - 1)\<close>; \<open>exb0\<close> after \<^verbatim>\<open>SPSCQueue q(1)\<close> with the
  allocator \<open>ex_at_least\<close>.
\<close>

definition ex_alloc :: allocator where
  "ex_alloc = Allocate (\<lambda>n. True)"

definition ex_at_least :: allocator where
  "ex_at_least = AllocateAtLeast (\<lambda>n. Some (n + 1))"

definition ex0 :: "nat SPSCQueue" where
  "ex0 = \<lparr>m_padding = 1, m_capacity = 3, m_slots = [None, None, None, None, None],
          m_writeIndex = 0, m_readIndex = 0, m_writeIndexCache = 0, m_readIndexCache = 0\<rparr>"

definition ex1 :: "nat SPSCQueue" where
  "ex1 = \<lparr>m_padding = 1, m_capacity = 3, m_slots = [None, Some 10, None, None, None],
          m_writeIndex = 1, m_readIndex = 0, m_writeIndexCache = 0, m_readIndexCache = 0\<rparr>"

definition ex2 :: "nat SPSCQueue" where
  "ex2 = \<lparr>m_padding = 1, m_capacity = 3, m_slots = [None, Some 10, Some 20, None, None],
          m_writeIndex = 2, m_readIndex = 0, m_writeIndexCache = 0, m_readIndexCache = 0\<rparr>"

definition ex2f :: "nat SPSCQueue" where
  "ex2f = \<lparr>m_padding = 1, m_capacity = 3, m_slots = [None, Some 10, Some 20, None, None],
          m_writeIndex = 2, m_readIndex = 0, m_writeIndexCache = 2, m_readIndexCache = 0\<rparr>"

definition ex3 :: "nat SPSCQueue" where
  "ex3 = \<lparr>m_padding = 1, m_capacity = 3, m_slots = [None, None, Some 20, None, None],
          m_writeIndex = 2, m_readIndex = 1, m_writeIndexCache = 2, m_readIndexCache = 0\<rparr>"

definition exw0 :: "nat SPSCQueue" where
  "exw0 = \<lparr>m_padding = 1, m_capacity = 0, m_slots = [None, None],
          m_writeIndex = 0, m_readIndex = 0, m_writeIndexCache = 0, m_readIndexCache = 0\<rparr>"

definition exw1 :: "nat SPSCQueue" where
  "exw1 = \<lparr>m_padding = 1, m_capacity = 0, m_slots = [None, Some 7],
          m_writeIndex = 1, m_readIndex = 0, m_writeIndexCache = 0, m_readIndexCache = 0\<rparr>"

definition exc0 :: "nat SPSCQueue" where
  "exc0 = \<lparr>m_padding = 1, m_capacity = SIZE_MAX - 2, m_slots = replicate (unat SIZE_MAX) None,
          m_writeIndex = 0, m_readIndex = 0, m_writeIndexCache = 0, m_readIndexCache = 0\<rparr>"

definition exb0 :: "nat SPSCQueue" where
  "exb0 = \<lparr>m_padding = 1, m_capacity = 3, m_slots = [None, None, None, None, None],
          m_writeIndex = 0, m_readIndex = 0, m_writeIndexCache = 0, m_readIndexCache = 0\<rparr>"

definition ex_ops :: "nat op list" where
  "ex_ops = [Push 1, Push 2, Pop, Push 3, Pop, Pop]"

definition ex4 :: "nat SPSCQueue" where
  "ex4 = \<lparr>m_padding = 1, m_capacity = 3, m_slots = [None, None, None, None, None],
          m_writeIndex = 0, m_readIndex = 0, m_writeIndexCache = 0, m_readIndexCache = 1\<rparr>"

section \<open>Arithmetic of the ring\<close>

lemma modulus_pos: "0 < modulus cap"
  by (simp add: modulus_def unat_gt_0)

lemma modulus_le: "modulus cap \<le> 2 ^ 64"
  using unsigned_less [of cap, where 'a = nat] by (simp add: modulus_def less_imp_le)

lemma unat_of_nat_mod: "unat (of_nat (k mod modulus cap) :: size_t) = k mod modulus cap"
proof -
  have "k mod modulus cap < modulus cap" using modulus_pos by simp
  with modulus_le [of cap] have "k mod modulus cap < 2 ^ 64" by linarith
  then show ?thesis by (simp add: unat_of_nat)
qed

lemma next_index_of_nat:
  "(if (of_nat (k mod modulus cap) :: size_t) + 1 = cap then 0
    else of_nat (k mod modulus cap) + 1) = (of_nat (Suc k mod modulus cap) :: size_t)"
proof (cases "cap = 0")
  case True
  have "(of_nat (k mod 2 ^ 64) :: size_t) = of_nat k"
    by (simp add: word_of_nat_eq_iff take_bit_eq_mod)
  moreover have "(of_nat (Suc k mod 2 ^ 64) :: size_t) = of_nat (Suc k)"
    by (simp only: word_of_nat_eq_iff take_bit_eq_mod) simp
  ultimately show ?thesis using True by (simp add: modulus_def add.commute)
next
  case False
  then have M: "modulus cap = unat cap" by (simp add: modulus_def)
  let ?i = "k mod unat cap"
  have lt: "?i < unat cap" using False by (simp add: unat_gt_0)
  have c: "(of_nat (unat cap) :: size_t) = cap" by simp
  show ?thesis
  proof (cases "Suc ?i = unat cap")
    case True
    then have "Suc k mod unat cap = 0" by (metis mod_Suc)
    moreover have "(of_nat ?i :: size_t) + 1 = cap"
      using True c by (metis of_nat_Suc add.commute)
    ultimately show ?thesis by (simp add: M)
  next
    case ne: False
    then have s: "Suc k mod unat cap = Suc ?i" by (metis mod_Suc)
    have "Suc ?i < 2 ^ 64" using lt unsigned_less [of cap, where 'a = nat] by simp
    then have "unat (of_nat (Suc ?i) :: size_t) = Suc ?i"
      by (simp only: unat_of_nat) simp
    with ne have "(of_nat (Suc ?i) :: size_t) \<noteq> cap" by auto
    then show ?thesis by (simp add: M s add.commute)
  qed
qed

lemma of_nat_mod_inj:
  assumes "a \<le> b" "b < a + modulus cap"
    and "(of_nat (a mod modulus cap) :: size_t) = of_nat (b mod modulus cap)"
  shows "a = b"
proof -
  from assms(3) have "unat (of_nat (a mod modulus cap) :: size_t) = unat (of_nat (b mod modulus cap) :: size_t)"
    by simp
  then have e: "a mod modulus cap = b mod modulus cap" by (simp only: unat_of_nat_mod)
  then have "(b - a) mod modulus cap = 0"
    using assms(1) by (metis mod_eq_dvd_iff_nat dvd_imp_mod_0)
  moreover have "b - a < modulus cap" using assms by simp
  ultimately show ?thesis using assms(1) by simp
qed

lemma slot_of_inj:
  assumes "a \<le> b" "b < a + modulus (m_capacity q)" "slot_of q a = slot_of q b"
  shows "a = b"
proof -
  from assms(3) have "(of_nat (a mod modulus (m_capacity q)) :: size_t) + m_padding q
      = of_nat (b mod modulus (m_capacity q)) + m_padding q"
    by (simp add: slot_of_def word_unat_eq_iff)
  then have "(of_nat (a mod modulus (m_capacity q)) :: size_t) = of_nat (b mod modulus (m_capacity q))"
    by simp
  with assms(1,2) show ?thesis by (rule of_nat_mod_inj)
qed

lemma of_nat_mod_eq_iff:
  assumes "a \<le> b" "b \<le> a + modulus cap"
  shows "((of_nat (a mod modulus cap) :: size_t) = of_nat (b mod modulus cap))
      = (b = a \<or> b = a + modulus cap)"
proof (cases "b = a + modulus cap")
  case True
  then show ?thesis by simp
next
  case False
  with assms have "b < a + modulus cap" by simp
  with assms(1) show ?thesis using of_nat_mod_inj [of a b cap] False by auto
qed

lemma slot_of_cong:
  "m_capacity q' = m_capacity q \<Longrightarrow> m_padding q' = m_padding q \<Longrightarrow> slot_of q' = slot_of q"
  by (rule ext) (simp add: slot_of_def)

lemma slots_inv_construct:
  assumes inv: "slots_inv q Rn Wn xs" and le: "Rn \<le> Wn" and lt: "Wn < Rn + modulus (m_capacity q)"
    and inb: "slot_of q Wn < length (m_slots q)"
    and q': "m_capacity q' = m_capacity q" "m_padding q' = m_padding q"
      "m_slots q' = (m_slots q)[slot_of q Wn := Some v]"
  shows "slots_inv q' Rn (Suc Wn) (xs @ [v])"
proof -
  let ?lo = Rn and ?hi = "Suc Wn" and ?ys = "xs @ [v]"
  have so: "slot_of q' = slot_of q" using q'(1,2) by (rule slot_of_cong)
  have ne: "slot_of q k \<noteq> slot_of q Wn" if "Rn \<le> k" "k < Wn" for k
    using slot_of_inj [of k Wn q] that lt by auto
  have len: "length xs = Wn - Rn" using inv by (simp add: slots_inv_def)
  have old: "slot_of q k < length (m_slots q) \<and> m_slots q ! slot_of q k = Some (xs ! (k - Rn))"
    if "Rn \<le> k" "k < Wn" for k
    using inv that by (simp add: slots_inv_def)
  have raw: "m_slots q ! j = None"
    if "j < length (m_slots q)" "\<forall>k. Rn \<le> k \<and> k < Wn \<longrightarrow> slot_of q k \<noteq> j" for j
    using inv that by (simp add: slots_inv_def)
  have 1: "length (xs @ [v]) = Suc Wn - Rn" using len le by simp
  have 2: "slot_of q' k < length (m_slots q')
      \<and> m_slots q' ! slot_of q' k = Some ((xs @ [v]) ! (k - Rn))"
    if k: "Rn \<le> k \<and> k < Suc Wn" for k
  proof (cases "k = Wn")
    case True
    then show ?thesis using inb len le by (simp add: so q'(3) nth_append)
  next
    case False
    with k have kk: "Rn \<le> k" "k < Wn" by auto
    from kk have "k - Rn < Wn - Rn" by arith
    with old [OF kk] ne [OF kk] kk len show ?thesis
      by (simp add: so q'(3) nth_append)
  qed
  have 3: "m_slots q' ! j = None"
    if j: "j < length (m_slots q')" "\<forall>k. Rn \<le> k \<and> k < Suc Wn \<longrightarrow> slot_of q' k \<noteq> j" for j
  proof -
    from j(2) le have "slot_of q Wn \<noteq> j" by (simp add: so)
    moreover from j(2) have "\<forall>k. Rn \<le> k \<and> k < Wn \<longrightarrow> slot_of q k \<noteq> j" by (simp add: so)
    ultimately show ?thesis using raw [of j] j(1) by (simp add: q'(3))
  qed
  show ?thesis unfolding slots_inv_def
  proof (intro conjI allI impI)
    show "length ?ys = ?hi - ?lo" by (rule 1)
  next
    fix k assume "?lo \<le> k \<and> k < ?hi"
    then show "slot_of q' k < length (m_slots q')" using 2 by blast
  next
    fix k assume "?lo \<le> k \<and> k < ?hi"
    then show "m_slots q' ! slot_of q' k = Some (?ys ! (k - ?lo))" using 2 by blast
  next
    fix j assume "j < length (m_slots q')" "\<forall>k. ?lo \<le> k \<and> k < ?hi \<longrightarrow> slot_of q' k \<noteq> j"
    then show "m_slots q' ! j = None" by (rule 3)
  qed
qed

lemma slots_inv_destroy:
  assumes inv: "slots_inv q Rn Wn xs" and lt0: "Rn < Wn" and lt: "Wn \<le> Rn + modulus (m_capacity q)"
    and q': "m_capacity q' = m_capacity q" "m_padding q' = m_padding q"
      "m_slots q' = (m_slots q)[slot_of q Rn := None]"
  shows "slots_inv q' (Suc Rn) Wn (tl xs)"
proof -
  let ?lo = "Suc Rn" and ?hi = Wn and ?ys = "tl xs"
  have so: "slot_of q' = slot_of q" using q'(1,2) by (rule slot_of_cong)
  have ne: "slot_of q k \<noteq> slot_of q Rn" if "Suc Rn \<le> k" "k < Wn" for k
    using slot_of_inj [of Rn k q] that lt by auto
  have len: "length xs = Wn - Rn" using inv by (simp add: slots_inv_def)
  have old: "slot_of q k < length (m_slots q) \<and> m_slots q ! slot_of q k = Some (xs ! (k - Rn))"
    if "Rn \<le> k" "k < Wn" for k
    using inv that by (simp add: slots_inv_def)
  have raw: "m_slots q ! j = None"
    if "j < length (m_slots q)" "\<forall>k. Rn \<le> k \<and> k < Wn \<longrightarrow> slot_of q k \<noteq> j" for j
    using inv that by (simp add: slots_inv_def)
  have 1: "length (tl xs) = Wn - Suc Rn" using len by simp
  have 2: "slot_of q' k < length (m_slots q')
      \<and> m_slots q' ! slot_of q' k = Some (tl xs ! (k - Suc Rn))"
    if k: "Suc Rn \<le> k \<and> k < Wn" for k
  proof -
    from k have kk: "Rn \<le> k" "k < Wn" by auto
    from k have e: "k - Rn = Suc (k - Suc Rn)" by arith
    from k len have "k - Suc Rn < length (tl xs)" by (simp only: length_tl) arith
    then have "tl xs ! (k - Suc Rn) = xs ! (k - Rn)"
      by (simp add: e nth_tl)
    with old [OF kk] ne [of k] k show ?thesis by (simp add: so q'(3))
  qed
  have 3: "m_slots q' ! j = None"
    if j: "j < length (m_slots q')" "\<forall>k. Suc Rn \<le> k \<and> k < Wn \<longrightarrow> slot_of q' k \<noteq> j" for j
  proof (cases "j = slot_of q Rn")
    case True
    then show ?thesis using j(1) by (simp add: q'(3))
  next
    case False
    have "\<forall>k. Rn \<le> k \<and> k < Wn \<longrightarrow> slot_of q k \<noteq> j"
    proof (intro allI impI)
      fix k assume k: "Rn \<le> k \<and> k < Wn"
      show "slot_of q k \<noteq> j"
      proof (cases "k = Rn")
        case True then show ?thesis using False by simp
      next
        case False with k j(2) show ?thesis by (simp add: so)
      qed
    qed
    with raw [of j] j(1) False show ?thesis by (simp add: q'(3))
  qed
  show ?thesis unfolding slots_inv_def
  proof (intro conjI allI impI)
    show "length ?ys = ?hi - ?lo" by (rule 1)
  next
    fix k assume "?lo \<le> k \<and> k < ?hi"
    then show "slot_of q' k < length (m_slots q')" using 2 by blast
  next
    fix k assume "?lo \<le> k \<and> k < ?hi"
    then show "m_slots q' ! slot_of q' k = Some (?ys ! (k - ?lo))" using 2 by blast
  next
    fix j assume "j < length (m_slots q')" "\<forall>k. ?lo \<le> k \<and> k < ?hi \<longrightarrow> slot_of q' k \<noteq> j"
    then show "m_slots q' ! j = None" by (rule 3)
  qed
qed

lemma slots_inv_cong:
  "slots_inv q Rn Wn xs \<Longrightarrow> m_capacity q' = m_capacity q \<Longrightarrow> m_padding q' = m_padding q
    \<Longrightarrow> m_slots q' = m_slots q \<Longrightarrow> slots_inv q' Rn Wn xs"
  using slot_of_cong [of q' q] by (simp add: slots_inv_def)

section \<open>The member functions keep the invariant\<close>

lemma ctor_fields:
  assumes "SPSCQueue_ctor sizeofT al c = Inr q"
  shows "m_writeIndex q = 0 \<and> m_readIndex q = 0 \<and> m_writeIndexCache q = 0
       \<and> m_readIndexCache q = 0 \<and> m_padding q = padding sizeofT
       \<and> (\<exists>n. m_slots q = replicate n None)"
  using assms
  by (auto simp: SPSCQueue_ctor_def Let_def split: allocator.splits if_splits option.splits)

lemma ring_inv_ctor:
  assumes "SPSCQueue_ctor sizeofT al c = Inr q"
  shows "ring_inv q 0 0 0 0 []"
proof -
  from ctor_fields [OF assms] obtain n where f: "m_writeIndex q = 0" "m_readIndex q = 0"
      "m_writeIndexCache q = 0" "m_readIndexCache q = 0" "m_slots q = replicate n None"
    by blast
  have "slots_inv q 0 0 []" by (simp add: slots_inv_def f)
  then show ?thesis using modulus_pos [of "m_capacity q"] by (simp add: ring_inv_def f)
qed

lemma emplace_spin_Some:
  assumes "emplace_spin q n = Some y"
  shows "n \<noteq> m_readIndexCache q \<or> n \<noteq> m_readIndex q"
  by (rule emplace_spin.raw_induct
      [where P = "\<lambda>q n y. n \<noteq> m_readIndexCache q \<or> n \<noteq> m_readIndex q", OF _ assms])
    (fastforce split: if_splits)

lemma emplace_spin_eq:
  "emplace_spin q n =
    (if n \<noteq> m_readIndexCache q then Some q
     else if n \<noteq> m_readIndex q then Some (q\<lparr>m_readIndexCache := m_readIndex q\<rparr>)
     else None)"
proof (cases "n \<noteq> m_readIndexCache q")
  case True
  then show ?thesis by (subst emplace_spin.simps) simp
next
  case c: False
  show ?thesis
  proof (cases "n \<noteq> m_readIndex q")
    case True
    have "emplace_spin (q\<lparr>m_readIndexCache := m_readIndex q\<rparr>) n
        = Some (q\<lparr>m_readIndexCache := m_readIndex q\<rparr>)"
      using True by (subst emplace_spin.simps) simp
    with c True show ?thesis by (subst emplace_spin.simps) simp
  next
    case False
    with c emplace_spin_Some [of q n] have "emplace_spin q n = None"
      by (cases "emplace_spin q n") auto
    with c False show ?thesis by simp
  qed
qed

text \<open>The producer's view of the cursors.\<close>

lemma producer_view:
  assumes "ring_inv q Rc Rn Wc Wn xs"
  defines "M \<equiv> modulus (m_capacity q)"
  shows "(if m_writeIndex q + 1 = m_capacity q then 0 else m_writeIndex q + 1) = of_nat (Suc Wn mod M)"
    and "((of_nat (Suc Wn mod M) :: size_t) = m_readIndexCache q) = (Suc Wn = Rc + M)"
    and "((of_nat (Suc Wn mod M) :: size_t) = m_readIndex q) = (Suc Wn = Rn + M)"
    and "unat (m_writeIndex q + m_padding q) = slot_of q Wn"
proof -
  from assms have i: "Rc \<le> Rn" "Rn \<le> Wc" "Wc \<le> Wn" "Wn < Rc + M"
      "m_readIndexCache q = of_nat (Rc mod M)" "m_readIndex q = of_nat (Rn mod M)"
      "m_writeIndex q = of_nat (Wn mod M)"
    by (simp_all add: ring_inv_def)
  show "(if m_writeIndex q + 1 = m_capacity q then 0 else m_writeIndex q + 1) = of_nat (Suc Wn mod M)"
    unfolding i(7) M_def by (rule next_index_of_nat)
  have "Rc \<le> Suc Wn" "Suc Wn \<le> Rc + M" using i by simp_all
  from of_nat_mod_eq_iff [OF this [unfolded M_def]] i(1-4)
  show "((of_nat (Suc Wn mod M) :: size_t) = m_readIndexCache q) = (Suc Wn = Rc + M)"
    unfolding i(5) M_def by auto
  have "Rn \<le> Suc Wn" "Suc Wn \<le> Rn + M" using i by simp_all
  from of_nat_mod_eq_iff [OF this [unfolded M_def]] i(1-4)
  show "((of_nat (Suc Wn mod M) :: size_t) = m_readIndex q) = (Suc Wn = Rn + M)"
    unfolding i(6) M_def by auto
  show "unat (m_writeIndex q + m_padding q) = slot_of q Wn"
    by (simp add: slot_of_def i(7) M_def)
qed

lemma consumer_view:
  assumes "ring_inv q Rc Rn Wc Wn xs"
  shows "(m_readIndex q = m_writeIndexCache q) = (Rn = Wc)"
    and "(m_writeIndex q = m_readIndex q) = (Rn = Wn)"
    and "unat (m_readIndex q + m_padding q) = slot_of q Rn"
    and "(if m_readIndex q + 1 = m_capacity q then 0 else m_readIndex q + 1)
          = of_nat (Suc Rn mod modulus (m_capacity q))"
proof -
  let ?M = "modulus (m_capacity q)"
  from assms have i: "Rc \<le> Rn" "Rn \<le> Wc" "Wc \<le> Wn" "Wn < Rc + ?M"
      "m_writeIndexCache q = of_nat (Wc mod ?M)" "m_readIndex q = of_nat (Rn mod ?M)"
      "m_writeIndex q = of_nat (Wn mod ?M)"
    by (simp_all add: ring_inv_def)
  have "Rn \<le> Wc" "Wc < Rn + ?M" using i by simp_all
  from of_nat_mod_inj [OF this] show "(m_readIndex q = m_writeIndexCache q) = (Rn = Wc)"
    unfolding i(5,6) by auto
  have "Rn \<le> Wn" "Wn < Rn + ?M" using i by simp_all
  from of_nat_mod_inj [OF this] show "(m_writeIndex q = m_readIndex q) = (Rn = Wn)"
    unfolding i(6,7) by auto
  show "unat (m_readIndex q + m_padding q) = slot_of q Rn"
    by (simp add: slot_of_def i(6))
  show "(if m_readIndex q + 1 = m_capacity q then 0 else m_readIndex q + 1)
          = of_nat (Suc Rn mod modulus (m_capacity q))"
    unfolding i(6) by (rule next_index_of_nat)
qed

lemma emplace_try_emplace:
  "emplace q v =
    (case try_emplace q v of
       Inl e \<Rightarrow> Some (Inl e)
     | Inr (ok, q') \<Rightarrow> if ok then Some (Inr q') else None)"
  by (simp add: emplace_def try_emplace_def emplace_spin_eq construct_and_publish_def Let_def)

lemma try_emplace_full:
  assumes inv: "ring_inv q Rc Rn Wc Wn xs" and full: "Suc Wn = Rn + modulus (m_capacity q)"
  shows "try_emplace q v = Inr (False, q)"
proof -
  define nxt :: size_t where "nxt = of_nat (Suc Wn mod modulus (m_capacity q))"
  note pv = producer_view [OF inv, folded nxt_def]
  from inv full have "Rc = Rn" by (simp add: ring_inv_def)
  with inv have "m_readIndexCache q = m_readIndex q" by (simp add: ring_inv_def)
  then have "q\<lparr>m_readIndexCache := m_readIndex q\<rparr> = q" by (cases q) simp
  moreover have "Suc Wn = Rc + modulus (m_capacity q)" using full \<open>Rc = Rn\<close> by simp
  ultimately show ?thesis using full
    by (simp add: try_emplace_def Let_def pv)
qed

lemma try_emplace_out_of_bounds:
  assumes inv: "ring_inv q Rc Rn Wc Wn xs" and nf: "Suc Wn \<noteq> Rn + modulus (m_capacity q)"
    and oob: "\<not> slot_of q Wn < length (m_slots q)"
  shows "try_emplace q v = Inl OutOfBounds"
proof -
  define nxt :: size_t where "nxt = of_nat (Suc Wn mod modulus (m_capacity q))"
  note pv = producer_view [OF inv, folded nxt_def]
  show ?thesis using nf oob
    by (simp add: try_emplace_def Let_def pv construct_and_publish_def)
qed

lemma try_emplace_ok:
  assumes inv: "ring_inv q Rc Rn Wc Wn xs" and nf: "Suc Wn \<noteq> Rn + modulus (m_capacity q)"
    and inb: "slot_of q Wn < length (m_slots q)"
  shows "\<exists>q' Rc'. try_emplace q v = Inr (True, q') \<and> ring_inv q' Rc' Rn Wc (Suc Wn) (xs @ [v])
      \<and> m_capacity q' = m_capacity q \<and> m_padding q' = m_padding q
      \<and> length (m_slots q') = length (m_slots q)"
proof -
  let ?M = "modulus (m_capacity q)"
  define nxt :: size_t where "nxt = of_nat (Suc Wn mod ?M)"
  note pv = producer_view [OF inv, folded nxt_def]
  define Rc' where "Rc' = (if Suc Wn = Rc + ?M then Rn else Rc)"
  define q' where "q' = q\<lparr>m_readIndexCache :=
        (if Suc Wn = Rc + ?M then m_readIndex q else m_readIndexCache q),
      m_slots := (m_slots q)[slot_of q Wn := Some v], m_writeIndex := nxt\<rparr>"
  from inv have i: "Rc \<le> Rn" "Rn \<le> Wc" "Wc \<le> Wn" "Wn < Rc + ?M"
      "m_readIndexCache q = of_nat (Rc mod ?M)" "m_readIndex q = of_nat (Rn mod ?M)"
      "m_writeIndexCache q = of_nat (Wc mod ?M)" "slots_inv q Rn Wn xs"
    by (simp_all add: ring_inv_def)
  have r: "try_emplace q v = Inr (True, q')"
    using nf inb
    by (simp add: try_emplace_def Let_def pv construct_and_publish_def q'_def)
  have f: "m_capacity q' = m_capacity q" "m_padding q' = m_padding q"
      "m_slots q' = (m_slots q)[slot_of q Wn := Some v]"
    by (simp_all add: q'_def)
  have "Rn \<le> Wn" "Wn < Rn + ?M" using i by simp_all
  from slots_inv_construct [OF i(8) this inb f] have s: "slots_inv q' Rn (Suc Wn) (xs @ [v])" .
  have c: "Rc' \<le> Rn" "Suc Wn < Rc' + ?M" using i nf by (auto simp: Rc'_def)
  have g: "m_readIndexCache q' = of_nat (Rc' mod ?M)" "m_readIndex q' = of_nat (Rn mod ?M)"
      "m_writeIndexCache q' = of_nat (Wc mod ?M)" "m_writeIndex q' = of_nat (Suc Wn mod ?M)"
    using i(5,6,7) by (simp_all add: q'_def Rc'_def nxt_def)
  from s c g i(2,3) have "ring_inv q' Rc' Rn Wc (Suc Wn) (xs @ [v])"
    unfolding ring_inv_def f(1) by simp
  with r f show ?thesis by auto
qed

lemma front_ring:
  assumes inv: "ring_inv q Rc Rn Wc Wn xs"
  shows "\<exists>q' Wc'. front q = (if Rn = Wn then None else Some (slot_of q Rn), q')
      \<and> ring_inv q' Rc Rn Wc' Wn xs \<and> (Rn < Wn \<longrightarrow> Rn < Wc')
      \<and> m_capacity q' = m_capacity q \<and> m_padding q' = m_padding q \<and> m_slots q' = m_slots q"
proof (cases "Rn = Wc")
  case True
  let ?q' = "q\<lparr>m_writeIndexCache := m_writeIndex q\<rparr>"
  have "front q = (if Rn = Wn then None else Some (slot_of q Rn), ?q')"
    using True by (auto simp: front_def Let_def consumer_view [OF inv])
  moreover have "ring_inv ?q' Rc Rn Wn Wn xs"
    using inv slots_inv_cong [of q Rn Wn xs ?q'] by (simp add: ring_inv_def)
  ultimately show ?thesis by (intro exI [of _ ?q'] exI [of _ Wn]) simp
next
  case False
  with inv have "Rn < Wc" "Wc \<le> Wn" by (simp_all add: ring_inv_def)
  then have "front q = (if Rn = Wn then None else Some (slot_of q Rn), q)"
    using False by (simp add: front_def Let_def consumer_view [OF inv])
  with inv \<open>Rn < Wc\<close> show ?thesis by (intro exI [of _ q] exI [of _ Wc]) simp
qed

lemma pop_ring:
  assumes inv: "ring_inv q Rc Rn Wc Wn xs" and ne: "Rn < Wc"
  shows "\<exists>q'. pop q = Inr (hd xs, q') \<and> ring_inv q' Rc (Suc Rn) Wc Wn (tl xs)
      \<and> m_capacity q' = m_capacity q \<and> m_padding q' = m_padding q
      \<and> m_slots q' = (m_slots q)[slot_of q Rn := None]"
proof -
  let ?M = "modulus (m_capacity q)"
  define q' where "q' = q\<lparr>m_slots := (m_slots q)[slot_of q Rn := None],
      m_readIndex := of_nat (Suc Rn mod ?M)\<rparr>"
  from inv have i: "Rc \<le> Rn" "Rn \<le> Wc" "Wc \<le> Wn" "Wn < Rc + ?M"
      "m_readIndexCache q = of_nat (Rc mod ?M)" "m_writeIndex q = of_nat (Wn mod ?M)"
      "m_writeIndexCache q = of_nat (Wc mod ?M)" "slots_inv q Rn Wn xs"
    by (simp_all add: ring_inv_def)
  from ne i have lt: "Rn < Wn" by simp
  with i(8) have "slot_of q Rn < length (m_slots q)" "m_slots q ! slot_of q Rn = Some (xs ! 0)"
      "xs \<noteq> []"
    by (auto simp: slots_inv_def)
  then have s: "slot_of q Rn < length (m_slots q)" "m_slots q ! slot_of q Rn = Some (hd xs)"
    by (simp_all add: hd_conv_nth)
  have r: "pop q = Inr (hd xs, q')"
    using lt s by (simp add: pop_def Let_def consumer_view [OF inv] q'_def)
  have f: "m_capacity q' = m_capacity q" "m_padding q' = m_padding q"
      "m_slots q' = (m_slots q)[slot_of q Rn := None]"
    by (simp_all add: q'_def)
  have "Wn \<le> Rn + ?M" using i by simp
  from slots_inv_destroy [OF i(8) lt this f] have "slots_inv q' (Suc Rn) Wn (tl xs)" .
  with i ne have "ring_inv q' Rc (Suc Rn) Wc Wn (tl xs)"
    by (simp add: ring_inv_def f(1)) (simp add: q'_def)
  with r f show ?thesis by auto
qed

lemma pop_empty:
  assumes inv: "ring_inv q Rc Rn Wc Wn xs" and e: "Rn = Wn"
  shows "pop q = Inl AssertionFailed"
  using e by (simp add: pop_def Let_def consumer_view [OF inv])

lemma try_emplace_ring:
  assumes inv: "ring_inv q Rc Rn Wc Wn xs" and r: "try_emplace q v = Inr (ok, q')"
  shows "(ok \<longleftrightarrow> Suc Wn \<noteq> Rn + modulus (m_capacity q))
      \<and> (\<exists>Rc'. ring_inv q' Rc' Rn Wc (if ok then Suc Wn else Wn) (if ok then xs @ [v] else xs))
      \<and> m_capacity q' = m_capacity q \<and> m_padding q' = m_padding q
      \<and> length (m_slots q') = length (m_slots q)"
proof (cases "Suc Wn = Rn + modulus (m_capacity q)")
  case True
  from try_emplace_full [OF inv True, of v] r have "ok = False" "q' = q" by simp_all
  with inv True show ?thesis by auto
next
  case False
  show ?thesis
  proof (cases "slot_of q Wn < length (m_slots q)")
    case True
    from try_emplace_ok [OF inv False True, of v] r show ?thesis using False by auto
  next
    case oob: False
    from try_emplace_out_of_bounds [OF inv False oob, of v] r show ?thesis by simp
  qed
qed

lemma reach_ring:
  assumes "reach q xs b"
  shows "\<exists>Rc Rn Wc Wn. ring_inv q Rc Rn Wc Wn xs \<and> (b \<longrightarrow> Rn < Wc)"
  using assms
proof (induction rule: reach.induct)
  case (reach_ctor sizeofT al c q)
  then show ?case using ring_inv_ctor by blast
next
  case (reach_try_emplace_true q xs b v q')
  then obtain Rc Rn Wc Wn where i: "ring_inv q Rc Rn Wc Wn xs" "b \<longrightarrow> Rn < Wc" by blast
  from try_emplace_ring [OF i(1) reach_try_emplace_true(2)] i(2) show ?case by auto
next
  case (reach_try_emplace_false q xs b v q')
  then obtain Rc Rn Wc Wn where i: "ring_inv q Rc Rn Wc Wn xs" "b \<longrightarrow> Rn < Wc" by blast
  from try_emplace_ring [OF i(1) reach_try_emplace_false(2)] i(2) show ?case by auto
next
  case (reach_emplace q xs b v q')
  then obtain Rc Rn Wc Wn where i: "ring_inv q Rc Rn Wc Wn xs" "b \<longrightarrow> Rn < Wc" by blast
  from reach_emplace(2) have "try_emplace q v = Inr (True, q')"
    by (auto simp: emplace_try_emplace split: sum.splits if_splits)
  from try_emplace_ring [OF i(1) this] i(2) show ?case by auto
next
  case (reach_front q xs b p q')
  then obtain Rc Rn Wc Wn where i: "ring_inv q Rc Rn Wc Wn xs" "b \<longrightarrow> Rn < Wc" by blast
  from front_ring [OF i(1)] reach_front(2) obtain Wc' where
    f: "p = (if Rn = Wn then None else Some (slot_of q Rn))" "ring_inv q' Rc Rn Wc' Wn xs"
      "Rn < Wn \<longrightarrow> Rn < Wc'"
    by auto
  from f(2) have "Rn \<le> Wn" by (simp add: ring_inv_def)
  with f show ?case by (intro exI [of _ Rc] exI [of _ Rn] exI [of _ Wc'] exI [of _ Wn]) auto
next
  case (reach_pop q xs x q')
  then obtain Rc Rn Wc Wn where i: "ring_inv q Rc Rn Wc Wn xs" "Rn < Wc" by blast
  from pop_ring [OF i] reach_pop(2) show ?case by auto
qed

lemma front_of_ring:
  assumes inv: "ring_inv q Rc Rn Wc Wn xs"
  shows "(fst (front q) = None \<longleftrightarrow> xs = []) \<and> (emptyQ q \<longleftrightarrow> xs = [])
       \<and> (xs \<noteq> [] \<longrightarrow> (\<exists>p. fst (front q) = Some p \<and> p < length (m_slots q)
              \<and> m_slots q ! p = Some (hd xs)))"
proof -
  from inv have l: "length xs = Wn - Rn" "Rn \<le> Wn" and s: "slots_inv q Rn Wn xs"
    by (simp_all add: ring_inv_def slots_inv_def)
  then have e: "(xs = []) = (Rn = Wn)" by auto
  from front_ring [OF inv] have f: "fst (front q) = (if Rn = Wn then None else Some (slot_of q Rn))"
    by auto
  have "slot_of q Rn < length (m_slots q) \<and> m_slots q ! slot_of q Rn = Some (hd xs)" if "xs \<noteq> []"
  proof -
    from that e l have "Rn < Wn" by simp
    with s have "slot_of q Rn < length (m_slots q)" "m_slots q ! slot_of q Rn = Some (xs ! 0)"
      by (auto simp: slots_inv_def)
    with that show ?thesis by (simp add: hd_conv_nth)
  qed
  with f e show ?thesis by (auto simp: emptyQ_def consumer_view [OF inv])
qed

section \<open>Size, destructor and storage\<close>

lemma odd_div_iff: "(n::nat) < 2 * m \<Longrightarrow> odd (n div m) \<longleftrightarrow> m \<le> n"
proof (cases "m \<le> n")
  case True
  assume "n < 2 * m"
  with True have "n div m = 1" by (intro div_nat_eqI) simp_all
  with True show ?thesis by simp
next
  case False
  then show ?thesis by simp
qed

lemma sint_neg_iff: "sint (d :: size_t) < 0 \<longleftrightarrow> 2 ^ 63 \<le> unat d"
proof -
  have "sint d < 0 \<longleftrightarrow> bit d 63" using bit_last_iff [of d] by simp
  also have "\<dots> \<longleftrightarrow> bit (unat d) 63"
    by (simp add: bit_unsigned_iff)
  also have "\<dots> \<longleftrightarrow> odd (unat d div 2 ^ 63)"
    by (simp add: bit_iff_odd)
  also have "\<dots> \<longleftrightarrow> 2 ^ 63 \<le> unat d"
    using unsigned_less [of d, where 'a = nat] by (intro odd_div_iff) simp
  finally show ?thesis .
qed

lemma size_le_capacity_words:
  fixes w r cap :: size_t
  assumes "cap = 0 \<or> (w < cap \<and> r < cap)"
  shows "(let d = w - r in if sint d < 0 then d + cap else d) \<le> cap - 1"
proof (cases "cap = 0")
  case True
  then show ?thesis by simp
next
  case False
  with assms have lt: "unat w < unat cap" "unat r < unat cap"
    by (simp_all add: word_less_nat_alt)
  have c: "unat (cap - 1) = unat cap - 1" using False by (rule unat_minus_one)
  have b: "unat cap < 2 ^ 64" using unsigned_less [of cap, where 'a = nat] by simp
  show ?thesis
    using lt b
    by (simp add: Let_def word_le_nat_alt c sint_neg_iff unat_sub_if_size unat_plus_if_size
        word_size) arith
qed

lemma ring_cursors_lt:
  assumes inv: "ring_inv q Rc Rn Wc Wn xs" and c: "m_capacity q \<noteq> 0"
  shows "m_writeIndex q < m_capacity q \<and> m_readIndex q < m_capacity q"
proof -
  from c have M: "modulus (m_capacity q) = unat (m_capacity q)" by (simp add: modulus_def)
  from inv have "m_readIndex q = of_nat (Rn mod modulus (m_capacity q))"
      "m_writeIndex q = of_nat (Wn mod modulus (m_capacity q))"
    by (simp_all add: ring_inv_def)
  then have "unat (m_readIndex q) = Rn mod unat (m_capacity q)"
      "unat (m_writeIndex q) = Wn mod unat (m_capacity q)"
    using unat_of_nat_mod [of _ "m_capacity q"] by (simp_all add: M)
  moreover have "0 < unat (m_capacity q)" using c by (simp add: unat_gt_0)
  ultimately show ?thesis by (simp add: word_less_nat_alt)
qed

lemma reach_cursors_in_range:
  assumes "reach q xs b" and "m_capacity q \<noteq> 0"
  shows "m_readIndex q < m_capacity q \<and> m_writeIndex q < m_capacity q"
proof -
  from reach_ring [OF assms(1)] obtain Rc Rn Wc Wn where "ring_inv q Rc Rn Wc Wn xs" by blast
  from ring_cursors_lt [OF this assms(2)] show ?thesis by simp
qed

lemma size_of_ring:
  assumes inv: "ring_inv q Rc Rn Wc Wn xs"
  shows "sizeQ q \<le> capacity q"
  unfolding sizeQ_def capacity_def
  by (rule size_le_capacity_words) (use ring_cursors_lt [OF inv] in blast)

text \<open>
  The value of \<^verbatim>\<open>size()\<close>: the number of elements in the queue, as long as the internal
  capacity is at most \<open>2 ^ 63\<close>, so that the sign of the \<^verbatim>\<open>ptrdiff_t\<close> tells which cursor
  is ahead.
\<close>

lemma mod_ring_distance:
  fixes M :: nat
  assumes "Rn \<le> Wn" "Wn < Rn + M"
  shows "(Rn mod M \<le> Wn mod M \<and> Wn mod M - Rn mod M = Wn - Rn)
       \<or> (Wn mod M < Rn mod M \<and> Wn mod M + M - Rn mod M = Wn - Rn)"
proof -
  from assms have M: "0 < M" by simp
  define n where "n = Wn - Rn"
  from assms have W: "Wn = Rn + n" and n: "n < M" by (simp_all add: n_def)
  have a: "Rn mod M < M" using M by simp
  have e: "Wn mod M = (Rn mod M + n) mod M" unfolding W by (simp add: mod_add_left_eq)
  show ?thesis
  proof (cases "Rn mod M + n < M")
    case True
    with e have "Wn mod M = Rn mod M + n" by simp
    then show ?thesis by (simp add: n_def)
  next
    case False
    then have "(Rn mod M + n) mod M = (Rn mod M + n - M) mod M"
      by (simp add: le_mod_geq)
    also from a n have "Rn mod M + n - M < M" by linarith
    then have "(Rn mod M + n - M) mod M = Rn mod M + n - M" by (rule mod_less)
    finally have "Wn mod M = Rn mod M + n - M" using e by simp
    with False a n have "Wn mod M < Rn mod M \<and> Wn mod M + M - Rn mod M = n" by linarith
    then show ?thesis by (simp add: n_def)
  qed
qed

lemma size_word_value:
  fixes w r cap :: size_t and n M :: nat
  assumes small: "unat cap \<le> 2 ^ 63" and M: "M = (if cap = 0 then 2 ^ 64 else unat cap)"
    and lt: "unat r < M" "unat w < M"
    and d: "(unat r \<le> unat w \<and> unat w - unat r = n)
          \<or> (unat w < unat r \<and> unat w + M - unat r = n)"
  shows "unat (let d = w - r in if sint d < 0 then d + cap else d) = n"
proof (cases "cap = 0")
  case True
  with M have "M = 18446744073709551616" by simp
  with d have "unat (w - r) = n" by (auto simp: unat_sub_if_size word_size)
  then show ?thesis by (simp add: Let_def True)
next
  case False
  with M have M': "M = unat cap" by simp
  from small have s: "unat cap \<le> 9223372036854775808" by simp
  from d show ?thesis
  proof
    assume a: "unat r \<le> unat w \<and> unat w - unat r = n"
    then have "unat (w - r) = n" by (simp add: unat_sub_if_size)
    moreover from a lt s have "n < 9223372036854775808" unfolding M' by linarith
    ultimately show ?thesis by (simp add: Let_def sint_neg_iff)
  next
    assume a: "unat w < unat r \<and> unat w + M - unat r = n"
    then have u: "unat (w - r) = unat w + 18446744073709551616 - unat r"
      by (simp add: unat_sub_if_size word_size)
    with a lt s have neg: "9223372036854775808 \<le> unat (w - r)" unfolding M' by linarith
    have "unat (w - r + cap) = (if unat (w - r) + unat cap < 18446744073709551616
        then unat (w - r) + unat cap else unat (w - r) + unat cap - 18446744073709551616)"
      by (simp add: unat_plus_if_size word_size)
    moreover from a lt u s have "\<not> unat (w - r) + unat cap < 18446744073709551616"
      unfolding M' by linarith
    moreover from a lt u s have "unat (w - r) + unat cap - 18446744073709551616 = n"
      unfolding M' by linarith
    ultimately have "unat (w - r + cap) = n" by simp
    with neg show ?thesis by (simp add: Let_def sint_neg_iff)
  qed
qed

lemma size_counts_elements:
  assumes inv: "ring_inv q Rc Rn Wc Wn xs" and small: "unat (m_capacity q) \<le> 2 ^ 63"
  shows "unat (sizeQ q) = length xs"
proof -
  let ?M = "modulus (m_capacity q)"
  from inv have i: "Rn \<le> Wn" "Wn < Rn + ?M" "length xs = Wn - Rn"
      "m_readIndex q = of_nat (Rn mod ?M)" "m_writeIndex q = of_nat (Wn mod ?M)"
    by (simp_all add: ring_inv_def slots_inv_def)
  have u: "unat (m_readIndex q) = Rn mod ?M" "unat (m_writeIndex q) = Wn mod ?M"
    by (simp_all add: i(4,5) unat_of_nat_mod)
  have lt: "Rn mod ?M < ?M" "Wn mod ?M < ?M" using modulus_pos by simp_all
  note d = mod_ring_distance [OF i(1,2)]
  have M: "?M = (if m_capacity q = 0 then 2 ^ 64 else unat (m_capacity q))"
    by (simp add: modulus_def)
  from size_word_value [OF small M, of "m_readIndex q" "m_writeIndex q" "Wn - Rn"] lt d
  show ?thesis by (simp add: sizeQ_def u i(3))
qed

lemma dtor_ring:
  assumes "ring_inv q Rc Rn Wc Wn xs"
  shows "\<exists>q' Wc'. SPSCQueue_dtor q = Inr (xs, q') \<and> ring_inv q' Rc Wn Wc' Wn []
      \<and> length (m_slots q') = length (m_slots q)"
  using assms
proof (induction xs arbitrary: q Rn Wc)
  case Nil
  then have e: "Rn = Wn" by (simp add: ring_inv_def slots_inv_def)
  from front_ring [OF Nil] e obtain q' Wc' where
    f: "front q = (None, q')" "ring_inv q' Rc Rn Wc' Wn []" "m_slots q' = m_slots q"
    by auto
  from f(1) have "SPSCQueue_dtor q = Inr ([], q')" by (subst SPSCQueue_dtor.simps) simp
  with f e show ?case by auto
next
  case (Cons x xs)
  then have lt: "Rn < Wn" by (auto simp: ring_inv_def slots_inv_def)
  from front_ring [OF Cons.prems] lt obtain q1 Wc1 where
    f: "front q = (Some (slot_of q Rn), q1)" "ring_inv q1 Rc Rn Wc1 Wn (x # xs)" "Rn < Wc1"
      "m_slots q1 = m_slots q"
    by auto
  from pop_ring [OF f(2,3)] obtain q2 where
    p: "pop q1 = Inr (x, q2)" "ring_inv q2 Rc (Suc Rn) Wc1 Wn xs"
      "length (m_slots q2) = length (m_slots q1)"
    by auto
  from Cons.IH [OF p(2)] obtain q' Wc' where
    d: "SPSCQueue_dtor q2 = Inr (xs, q')" "ring_inv q' Rc Wn Wc' Wn []"
      "length (m_slots q') = length (m_slots q2)"
    by auto
  from f(1) p(1) d(1) have "SPSCQueue_dtor q = Inr (x # xs, q')"
    by (subst SPSCQueue_dtor.simps) simp
  with d p(3) f(4) show ?case by auto
qed

lemma ring_empty_raw:
  assumes "ring_inv q Rc Wn Wc Wn []"
  shows "\<forall>s \<in> set (m_slots q). s = None"
proof
  fix s assume "s \<in> set (m_slots q)"
  then obtain j where "j < length (m_slots q)" "m_slots q ! j = s" by (auto simp: in_set_conv_nth)
  with assms show "s = None" by (auto simp: ring_inv_def slots_inv_def)
qed

lemma storage_ok_slot:
  assumes "storage_ok q"
  shows "slot_of q k < length (m_slots q)"
proof -
  let ?M = "modulus (m_capacity q)"
  from assms have M: "?M = unat (m_capacity q)" by (simp add: storage_ok_def modulus_def)
  have "k mod ?M < ?M" using modulus_pos by simp
  moreover have "slot_of q k \<le> k mod ?M + unat (m_padding q)"
    unfolding slot_of_def by (simp add: unat_plus_if' unat_of_nat_mod)
  ultimately show ?thesis using assms by (simp add: storage_ok_def M)
qed

lemma storage_ok_capacity:
  assumes "storage_ok q"
  shows "unat (capacity q) = modulus (m_capacity q) - 1"
  using assms by (simp add: storage_ok_def capacity_def modulus_def unat_minus_one)

lemma storage_ok_cong:
  "storage_ok q \<Longrightarrow> m_capacity q' = m_capacity q \<Longrightarrow> m_padding q' = m_padding q
    \<Longrightarrow> length (m_slots q') = length (m_slots q) \<Longrightarrow> storage_ok q'"
  by (simp add: storage_ok_def)

text \<open>
  Where the storage holds the ring, no insert leaves it, and every member function keeps
  it so.
\<close>

lemma reach_write_slot_in_bounds:
  assumes "reach q xs b" and "storage_ok q"
  shows "unat (m_writeIndex q + m_padding q) < length (m_slots q)"
proof -
  from reach_ring [OF assms(1)] obtain Rc Rn Wc Wn where i: "ring_inv q Rc Rn Wc Wn xs" by blast
  from producer_view(4) [OF i] storage_ok_slot [OF assms(2), of Wn] show ?thesis by simp
qed

lemma step_storage_ok:
  assumes "storage_ok q"
  shows "try_emplace q v = Inr (ok, q1) \<Longrightarrow> storage_ok q1"
    and "emplace q v = Some (Inr q2) \<Longrightarrow> storage_ok q2"
    and "front q = (p, q3) \<Longrightarrow> storage_ok q3"
    and "pop q = Inr (x, q4) \<Longrightarrow> storage_ok q4"
proof -
  show t: "storage_ok q1" if "try_emplace q v = Inr (ok, q1)" for ok q1
    using that assms
    by (auto simp: try_emplace_def Let_def construct_and_publish_def storage_ok_def
        split: if_splits)
  show "storage_ok q2" if "emplace q v = Some (Inr q2)"
    using that t [of True q2] by (auto simp: emplace_try_emplace split: sum.splits if_splits)
  show "storage_ok q3" if "front q = (p, q3)"
    using that assms by (auto simp: front_def Let_def storage_ok_def split: if_splits)
  show "storage_ok q4" if "pop q = Inr (x, q4)"
    using that assms
    by (auto simp: pop_def Let_def storage_ok_def split: if_splits option.splits)
qed

section \<open>The capacity the constructor computes\<close>

lemma padding_le: "unat (padding sizeofT) \<le> 64"
proof -
  have "unat ((63 :: size_t) div sizeofT) \<le> 63"
    by (simp add: unat_div)
  then show ?thesis
    by (simp add: padding_def cacheLineSize_def unat_plus_if')
qed

lemma unat_SIZE_MAX: "unat SIZE_MAX = 2 ^ 64 - 1"
  by (simp add: SIZE_MAX_def unsigned_minus_1_eq_mask mask_eq_exp_minus_1)

lemma padding_pos: "0 < unat (padding sizeofT)"
proof -
  have "unat ((63 :: size_t) div sizeofT) \<le> 63"
    by (simp add: unat_div)
  then show ?thesis
    by (simp add: padding_def cacheLineSize_def unat_plus_if')
qed

text \<open>The capacity the constructor computes before it allocates.\<close>

lemma ctor_capacity_no_wrap:
  fixes c sizeofT :: size_t
  assumes "c \<noteq> SIZE_MAX"
  defines "c1 \<equiv> (if c < 1 then 1 else c)"
  defines "pad \<equiv> padding sizeofT"
  defines "c3 \<equiv> (if c1 + 1 > SIZE_MAX - 2 * pad then SIZE_MAX - 2 * pad else c1 + 1)"
  shows "unat c3 = min (max (unat c) 1 + 1) (2 ^ 64 - 1 - 2 * unat pad)"
    and "unat (c3 + 2 * pad) = unat c3 + 2 * unat pad"
    and "2 \<le> unat c3"
proof -
  have p: "unat pad \<le> 64" "0 < unat pad" unfolding pad_def by (rule padding_le, rule padding_pos)
  have c: "unat c < 2 ^ 64 - 1"
    using assms(1) unsigned_less [of c, where 'a = nat]
    by (simp add: word_unat_eq_iff unat_SIZE_MAX)
  have c1: "unat c1 = max (unat c) 1"
    by (simp add: c1_def word_less_nat_alt max_def)
  have c2: "unat (c1 + 1) = max (unat c) 1 + 1"
    using c c1 by (simp add: unat_plus_if')
  have tp: "unat (2 * pad) = 2 * unat pad"
    using p by (simp add: unat_mult_lem [THEN iffD1])
  have lim: "unat (SIZE_MAX - 2 * pad) = 2 ^ 64 - 1 - 2 * unat pad"
    using p tp by (simp add: unat_sub_if_size word_size unat_SIZE_MAX)
  show 1: "unat c3 = min (max (unat c) 1 + 1) (2 ^ 64 - 1 - 2 * unat pad)"
    by (simp add: c3_def word_less_nat_alt c2 lim min_def)
  then show "unat (c3 + 2 * pad) = unat c3 + 2 * unat pad"
    using p tp by (simp add: unat_plus_if')
  from 1 p show "2 \<le> unat c3" by simp
qed

lemma ctor_Inr:
  fixes c sizeofT :: size_t
  assumes ctor: "SPSCQueue_ctor sizeofT al c = Inr q"
  defines "pad \<equiv> padding sizeofT"
  defines "c3 \<equiv> (if (if c < 1 then 1 else c) + 1 > SIZE_MAX - 2 * pad
      then SIZE_MAX - 2 * pad else (if c < 1 then 1 else c) + 1)"
  shows "m_padding q = pad"
    and "(\<exists>ok. al = Allocate ok) \<Longrightarrow>
          m_capacity q = c3 \<and> m_slots q = replicate (unat (c3 + 2 * pad)) None"
    and "al = AllocateAtLeast f \<Longrightarrow>
          \<exists>count. f (c3 + 2 * pad) = Some count \<and> m_capacity q = count - 2 * pad
            \<and> m_slots q = replicate (unat count) None"
proof -
  have e: "(case al of
          Allocate ok \<Rightarrow>
            if ok (c3 + 2 * pad)
            then Inr \<lparr>m_padding = pad, m_capacity = c3,
                      m_slots = replicate (unat (c3 + 2 * pad)) None,
                      m_writeIndex = 0, m_readIndex = 0,
                      m_writeIndexCache = 0, m_readIndexCache = 0\<rparr>
            else Inl BadAlloc
        | AllocateAtLeast f \<Rightarrow>
            (case f (c3 + 2 * pad) of
               None \<Rightarrow> Inl BadAlloc
             | Some count \<Rightarrow>
                 Inr \<lparr>m_padding = pad, m_capacity = count - 2 * pad,
                      m_slots = replicate (unat count) None,
                      m_writeIndex = 0, m_readIndex = 0,
                      m_writeIndexCache = 0, m_readIndexCache = 0\<rparr>)) = Inr q"
    using ctor unfolding SPSCQueue_ctor_def Let_def pad_def c3_def .
  show "m_padding q = pad"
    using e by (cases al) (auto split: if_splits option.splits)
  show "m_capacity q = c3 \<and> m_slots q = replicate (unat (c3 + 2 * pad)) None"
    if "\<exists>ok. al = Allocate ok"
    using e that by (auto split: if_splits)
  show "\<exists>count. f (c3 + 2 * pad) = Some count \<and> m_capacity q = count - 2 * pad
            \<and> m_slots q = replicate (unat count) None"
    if "al = AllocateAtLeast f"
    using e that by (auto split: option.splits)
qed

lemma ctor_storage_ok:
  assumes ctor: "SPSCQueue_ctor sizeofT al c = Inr q" and c: "c \<noteq> SIZE_MAX"
    and al: "allocator_contract al"
  shows "storage_ok q"
proof -
  define pad where "pad = padding sizeofT"
  define c3 where "c3 = (if (if c < 1 then 1 else c) + 1 > SIZE_MAX - 2 * pad
      then SIZE_MAX - 2 * pad else (if c < 1 then 1 else c) + 1)"
  note n = ctor_capacity_no_wrap [OF c, of sizeofT, folded pad_def, folded c3_def]
  note i = ctor_Inr [OF ctor, folded pad_def, folded c3_def]
  show ?thesis
  proof (cases al)
    case (Allocate ok)
    with i(1,2) n show ?thesis by (auto simp: storage_ok_def)
  next
    case (AllocateAtLeast f)
    from i(3) [OF this] obtain count where f: "f (c3 + 2 * pad) = Some count"
        and q: "m_capacity q = count - 2 * pad" "m_slots q = replicate (unat count) None"
      by blast
    from al AllocateAtLeast f have "c3 + 2 * pad \<le> count" by (simp add: allocator_contract_def)
    then have le: "unat c3 + 2 * unat pad \<le> unat count" using n(2) by (simp add: word_le_nat_alt)
    have p: "unat pad \<le> 64" unfolding pad_def by (rule padding_le)
    then have tp: "unat (2 * pad) = 2 * unat pad" by (simp add: unat_mult_lem [THEN iffD1])
    from le tp have "unat (count - 2 * pad) = unat count - 2 * unat pad"
      by (simp add: unat_sub_if_size)
    with le n(3) q i(1) show ?thesis by (auto simp: storage_ok_def simp flip: unat_0_iff)
  qed
qed

text \<open>
  The value \<^verbatim>\<open>capacity()\<close> reports after construction, when the allocator returns exactly
  the slots asked for: the requested capacity coerced to at least 1, or the clamp.
\<close>

lemma ctor_capacity_exact:
  assumes ctor: "SPSCQueue_ctor sizeofT al c = Inr q0" and ex: "exact_allocation al"
  shows "max c 1 < SIZE_MAX - 2 * padding sizeofT \<Longrightarrow> capacity q0 = max c 1"
    and "c \<noteq> SIZE_MAX \<Longrightarrow> \<not> max c 1 < SIZE_MAX - 2 * padding sizeofT \<Longrightarrow>
          capacity q0 = SIZE_MAX - 2 * padding sizeofT - 1"
proof -
  define pad where "pad = padding sizeofT"
  define c3 where "c3 = (if (if c < 1 then 1 else c) + 1 > SIZE_MAX - 2 * pad
      then SIZE_MAX - 2 * pad else (if c < 1 then 1 else c) + 1)"
  note i = ctor_Inr [OF ctor, folded pad_def, folded c3_def]
  have c1: "(if c < 1 then 1 else c) = max c 1"
    by (simp add: max_def word_less_nat_alt word_le_nat_alt) (simp add: word_unat_eq_iff)
  have q: "m_capacity q0 = c3"
  proof (cases al)
    case (Allocate ok)
    with i(2) show ?thesis by simp
  next
    case (AllocateAtLeast f)
    from i(3) [OF this] obtain count where "f (c3 + 2 * pad) = Some count"
        "m_capacity q0 = count - 2 * pad"
      by blast
    moreover from this(1) ex AllocateAtLeast have "count = c3 + 2 * pad"
      by (simp add: exact_allocation_def)
    ultimately show ?thesis by simp
  qed
  show "capacity q0 = max c 1" if lt: "max c 1 < SIZE_MAX - 2 * padding sizeofT"
  proof -
    from lt have "max c 1 + 1 \<le> SIZE_MAX - 2 * pad"
      unfolding pad_def by (simp add: inc_le)
    then have "c3 = max c 1 + 1" unfolding c3_def c1 by (simp add: not_less [symmetric])
    with q show ?thesis by (simp add: capacity_def)
  qed
  show "capacity q0 = SIZE_MAX - 2 * padding sizeofT - 1"
    if ne: "c \<noteq> SIZE_MAX" and ge: "\<not> max c 1 < SIZE_MAX - 2 * padding sizeofT"
  proof -
    from ne have "max c 1 \<noteq> SIZE_MAX" by (auto simp: max_def SIZE_MAX_def)
    then have "unat (max c 1) < 2 ^ 64 - 1"
      using unsigned_less [of "max c 1", where 'a = nat]
      by (simp add: word_unat_eq_iff unat_SIZE_MAX)
    then have "unat (max c 1 + 1) = unat (max c 1) + 1" by (simp add: unat_plus_if')
    with ge have "SIZE_MAX - 2 * pad < max c 1 + 1"
      by (simp add: pad_def word_less_nat_alt)
    then have "c3 = SIZE_MAX - 2 * pad" unfolding c3_def c1 by simp
    with q show ?thesis by (simp add: capacity_def pad_def)
  qed
qed

section \<open>Executions\<close>

lemma take_Suc_append_tl:
  "xs \<noteq> [] \<Longrightarrow> take (Suc n) (xs @ ys) = hd xs # take n (tl xs @ ys)"
  by (cases xs) simp_all

lemma run_ring:
  assumes "ring_inv q Rc Rn Wc Wn xs" and "run q ops = Some (Inr (obs, q'))"
  shows "obs = map Some (take (pops ops) (xs @ pushed ops))
       \<and> pops ops \<le> length xs + length (pushed ops)"
  using assms
proof (induction ops arbitrary: q Rc Rn Wc Wn xs obs)
  case Nil
  then show ?case by simp
next
  case (Cons a ops)
  show ?case
  proof (cases a)
    case (Push v)
    with Cons.prems(2) obtain q1 where e: "emplace q v = Some (Inr q1)"
        and r: "run q1 ops = Some (Inr (obs, q'))"
      by (auto simp: push_def split: option.splits sum.splits)
    from e have "try_emplace q v = Inr (True, q1)"
      by (auto simp: emplace_try_emplace split: sum.splits if_splits)
    from try_emplace_ring [OF Cons.prems(1) this] obtain Rc' where
      "ring_inv q1 Rc' Rn Wc (Suc Wn) (xs @ [v])" by auto
    from Cons.IH [OF this r] show ?thesis using Push by simp
  next
    case Pop
    obtain p q1 where f: "front q = (p, q1)" by (cases "front q")
    with Cons.prems(2) Pop obtain x q2 obs' where p: "pop q1 = Inr (x, q2)"
        and r: "run q2 ops = Some (Inr (obs', q'))" and o: "obs = deref q1 p # obs'"
      by (auto split: option.splits sum.splits)
    from front_ring [OF Cons.prems(1)] f obtain Wc' where
      g: "p = (if Rn = Wn then None else Some (slot_of q Rn))" "ring_inv q1 Rc Rn Wc' Wn xs"
        "Rn < Wn \<longrightarrow> Rn < Wc'" "m_capacity q1 = m_capacity q" "m_padding q1 = m_padding q"
      by auto
    from pop_empty [OF g(2)] p have "Rn \<noteq> Wn" by auto
    moreover from g(2) have "Rn \<le> Wn" "length xs = Wn - Rn" by (simp_all add: ring_inv_def slots_inv_def)
    ultimately have lt: "Rn < Wn" "Rn < Wc'" "xs \<noteq> []" using g(3) by auto
    from pop_ring [OF g(2) lt(2)] p have i2: "ring_inv q2 Rc (Suc Rn) Wc' Wn (tl xs)" by auto
    from front_of_ring [OF g(2)] lt(3) front_ring [OF g(2)] lt(1)
    have "slot_of q1 Rn < length (m_slots q1)" "m_slots q1 ! slot_of q1 Rn = Some (hd xs)"
      by auto
    moreover have "slot_of q1 Rn = slot_of q Rn" using slot_of_cong [OF g(4,5)] by simp
    ultimately have d: "deref q1 p = Some (hd xs)" using g(1) lt(1) by (simp add: deref_def)
    from Cons.IH [OF i2 r] have
      "obs' = map Some (take (pops ops) (tl xs @ pushed ops))"
      "pops ops \<le> length (tl xs) + length (pushed ops)"
      by simp_all
    with o d lt(3) Pop show ?thesis
      by (simp add: take_Suc_append_tl) (cases xs; simp)
  qed
qed

lemma run_progress:
  assumes "ring_inv q Rc Rn Wc Wn xs" and "storage_ok q"
    and "feasible (unat (capacity q)) (length xs) ops"
  shows "\<exists>obs q'. run q ops = Some (Inr (obs, q'))"
  using assms
proof (induction ops arbitrary: q Rc Rn Wc Wn xs)
  case Nil
  then show ?case by simp
next
  case (Cons a ops)
  from Cons.prems(1) have l: "length xs = Wn - Rn" "Rn \<le> Wn"
    by (simp_all add: ring_inv_def slots_inv_def)
  show ?case
  proof (cases a)
    case (Push v)
    with Cons.prems(3) have lt: "length xs < unat (capacity q)"
        and fe: "feasible (unat (capacity q)) (Suc (length xs)) ops"
      by simp_all
    from lt l have nf: "Suc Wn \<noteq> Rn + modulus (m_capacity q)"
      by (simp add: storage_ok_capacity [OF Cons.prems(2)])
    from try_emplace_ok [OF Cons.prems(1) nf storage_ok_slot [OF Cons.prems(2)], of v]
    obtain q1 Rc' where t: "try_emplace q v = Inr (True, q1)"
        and i: "ring_inv q1 Rc' Rn Wc (Suc Wn) (xs @ [v])"
        and s: "m_capacity q1 = m_capacity q" "m_padding q1 = m_padding q"
          "length (m_slots q1) = length (m_slots q)"
      by blast
    from s have so: "storage_ok q1" by (rule storage_ok_cong [OF Cons.prems(2)])
    from s(1) have c: "capacity q1 = capacity q" by (simp add: capacity_def)
    from Cons.IH [OF i so] fe obtain obs q' where "run q1 ops = Some (Inr (obs, q'))"
      by (auto simp: c)
    with t Push show ?thesis by (simp add: push_def emplace_try_emplace)
  next
    case Pop
    with Cons.prems(3) have pos: "0 < length xs"
        and fe: "feasible (unat (capacity q)) (length xs - 1) ops"
      by simp_all
    from pos l have lt: "Rn < Wn" by simp
    from front_ring [OF Cons.prems(1)] lt obtain q1 Wc' where
      f: "front q = (Some (slot_of q Rn), q1)" "ring_inv q1 Rc Rn Wc' Wn xs" "Rn < Wc'"
        "m_capacity q1 = m_capacity q" "m_padding q1 = m_padding q" "m_slots q1 = m_slots q"
      by auto
    from pop_ring [OF f(2,3)] obtain q2 where
      p: "pop q1 = Inr (hd xs, q2)" "ring_inv q2 Rc (Suc Rn) Wc' Wn (tl xs)"
        "m_capacity q2 = m_capacity q1" "m_padding q2 = m_padding q1"
        "m_slots q2 = (m_slots q1)[slot_of q1 Rn := None]"
      by auto
    have so: "storage_ok q2"
      using Cons.prems(2) f(4,5,6) p(3,4,5) by (simp add: storage_ok_def)
    have c: "capacity q2 = capacity q" using f(4) p(3) by (simp add: capacity_def)
    from Cons.IH [OF p(2) so] fe obtain obs q' where "run q2 ops = Some (Inr (obs, q'))"
      by (auto simp: c)
    with f(1) p(1) Pop show ?thesis by simp
  qed
qed

lemma try_push_all_ring:
  assumes "ring_inv q Rc Rn Wc Wn xs" and "storage_ok q"
  shows "\<exists>q'. try_push_all q vs
      = Inr (map (\<lambda>i. length xs + i < unat (capacity q)) [0..<length vs], q')"
  using assms
proof (induction vs arbitrary: q Rc Wn xs)
  case Nil
  then show ?case by simp
next
  case (Cons v vs)
  from Cons.prems(1) have l: "length xs = Wn - Rn" "Rn \<le> Wn" "Wn < Rn + modulus (m_capacity q)"
    by (simp_all add: ring_inv_def slots_inv_def)
  note cap = storage_ok_capacity [OF Cons.prems(2)]
  have sh: "map f [0..<Suc (length vs)] = f 0 # map (\<lambda>i. f (Suc i)) [0..<length vs]"
    for f :: "nat \<Rightarrow> bool"
    by (rule map_upt_Suc)
  show ?case
  proof (cases "length xs < unat (capacity q)")
    case True
    with l have nf: "Suc Wn \<noteq> Rn + modulus (m_capacity q)" by (simp add: cap)
    from try_emplace_ok [OF Cons.prems(1) nf storage_ok_slot [OF Cons.prems(2)], of v]
    obtain q1 Rc' where t: "try_emplace q v = Inr (True, q1)"
        and i: "ring_inv q1 Rc' Rn Wc (Suc Wn) (xs @ [v])"
        and s: "m_capacity q1 = m_capacity q" "m_padding q1 = m_padding q"
          "length (m_slots q1) = length (m_slots q)"
      by blast
    from s have so: "storage_ok q1" by (rule storage_ok_cong [OF Cons.prems(2)])
    from s(1) have c: "capacity q1 = capacity q" by (simp add: capacity_def)
    from Cons.IH [OF i so] obtain q' where
      "try_push_all q1 vs = Inr (map (\<lambda>i. length (xs @ [v]) + i < unat (capacity q1)) [0..<length vs], q')"
      by blast
    with t True show ?thesis by (simp add: try_push_def sh c del: upt_Suc)
  next
    case False
    with l have full: "Suc Wn = Rn + modulus (m_capacity q)" by (simp add: cap)
    from try_emplace_full [OF Cons.prems(1) full] have t: "try_emplace q v = Inr (False, q)" .
    from Cons.IH [OF Cons.prems] obtain q' where
      "try_push_all q vs = Inr (map (\<lambda>i. length xs + i < unat (capacity q)) [0..<length vs], q')"
      by blast
    with t False show ?thesis by (simp add: try_push_def sh del: upt_Suc)
  qed
qed

section \<open>The example states\<close>

lemma padding_64: "padding 64 = 1"
  by (simp add: padding_def cacheLineSize_def)

lemma replicate_5: "replicate 5 x = [x, x, x, x, x]"
  by (simp add: numeral_eq_Suc)

lemma replicate_2: "replicate 2 x = [x, x]"
  by (simp add: numeral_2_eq_2)

lemma ex0_ctor: "SPSCQueue_ctor 64 ex_alloc 2 = Inr ex0"
  by (simp add: SPSCQueue_ctor_def ex_alloc_def ex0_def padding_64 SIZE_MAX_def Let_def replicate_5)

lemma exb0_ctor: "SPSCQueue_ctor 64 ex_at_least 1 = Inr exb0"
  by (simp add: SPSCQueue_ctor_def ex_at_least_def exb0_def padding_64 SIZE_MAX_def Let_def
      replicate_5)

lemma exc0_ctor: "SPSCQueue_ctor 64 ex_alloc (SIZE_MAX - 1) = Inr exc0"
  by (simp add: SPSCQueue_ctor_def ex_alloc_def exc0_def padding_64 SIZE_MAX_def Let_def)

lemma exw0_ctor: "SPSCQueue_ctor 64 ex_alloc SIZE_MAX = Inr exw0"
  by (simp add: SPSCQueue_ctor_def ex_alloc_def exw0_def padding_64 SIZE_MAX_def Let_def
      replicate_2)

lemma ex1_step: "try_emplace ex0 10 = Inr (True, ex1)"
  by (simp add: try_emplace_def construct_and_publish_def ex0_def ex1_def Let_def)

lemma ex2_step: "try_emplace ex1 20 = Inr (True, ex2)"
  by (simp add: try_emplace_def construct_and_publish_def ex1_def ex2_def Let_def)

lemma ex2_full: "try_emplace ex2 30 = Inr (False, ex2)"
  by (simp add: try_emplace_def construct_and_publish_def ex2_def Let_def)

lemma ex2_front: "front ex2 = (Some 1, ex2f)"
  by (simp add: front_def ex2_def ex2f_def Let_def)

lemma ex2f_pop: "pop ex2f = Inr (10, ex3)"
  by (simp add: pop_def ex2f_def ex3_def Let_def)

lemma ex0_reach: "reach ex0 [] False"
  using ex0_ctor by (rule reach_ctor)

lemma ex1_reach: "reach ex1 [10] False"
  using reach_try_emplace_true [OF ex0_reach ex1_step] by simp

lemma ex2_reach: "reach ex2 [10, 20] False"
  using reach_try_emplace_true [OF ex1_reach ex2_step] by simp

lemma ex2f_reach: "reach ex2f [10, 20] True"
  using reach_front [OF ex2_reach ex2_front] by simp

lemma ex3_reach: "reach ex3 [20] False"
  using reach_pop [OF ex2f_reach ex2f_pop] by simp

lemma exw1_step: "try_emplace exw0 7 = Inr (True, exw1)"
  by (simp add: try_emplace_def construct_and_publish_def exw0_def exw1_def Let_def)

lemma exw1_oob: "try_emplace exw1 8 = Inl OutOfBounds"
  by (simp add: try_emplace_def construct_and_publish_def exw1_def Let_def)

lemma ex_run: "run ex0 ex_ops = Some (Inr ([Some 1, Some 2, Some 3], ex4))"
  by (simp add: ex_ops_def push_def emplace_try_emplace try_emplace_def
      construct_and_publish_def front_def pop_def deref_def ex0_def ex4_def Let_def)

section \<open>Facts used by several claims\<close>

lemma capacity_modulus: "unat (capacity q) = modulus (m_capacity q) - 1"
proof (cases "m_capacity q = 0")
  case True
  then show ?thesis
    using unat_SIZE_MAX by (simp add: capacity_def modulus_def SIZE_MAX_def)
next
  case False
  then show ?thesis by (simp add: capacity_def modulus_def unat_minus_one)
qed

lemma map_less_upt: "map (\<lambda>i. i < C) [0..<Suc C] = replicate C True @ [False]"
proof -
  have "map (\<lambda>i. i < C) [0..<C] = replicate C True"
    by (rule nth_equalityI) simp_all
  then show ?thesis by simp
qed

lemma filter_update_None:
  "j < length xs \<Longrightarrow> xs ! j = Some x \<Longrightarrow>
    Suc (length (filter (\<lambda>s. s \<noteq> None) (xs[j := None]))) = length (filter (\<lambda>s. s \<noteq> None) xs)"
proof (induction xs arbitrary: j)
  case Nil
  then show ?case by simp
next
  case (Cons a xs)
  then show ?case by (cases j) auto
qed

lemma constructed_ring:
  assumes "ring_inv q Rc Rn Wc Wn xs"
  shows "constructed q = length xs"
  using assms
proof (induction xs arbitrary: q Rn Wc)
  case Nil
  then have "Rn = Wn" by (simp add: ring_inv_def slots_inv_def)
  with Nil have "ring_inv q Rc Wn Wc Wn []" by simp
  from ring_empty_raw [OF this] have "filter (\<lambda>s. s \<noteq> None) (m_slots q) = []"
    by (simp add: filter_empty_conv)
  then show ?case by (simp add: constructed_def)
next
  case (Cons x xs)
  then have lt: "Rn < Wn" by (auto simp: ring_inv_def slots_inv_def)
  from front_ring [OF Cons.prems] lt obtain q1 Wc1 where
    f: "ring_inv q1 Rc Rn Wc1 Wn (x # xs)" "Rn < Wc1"
      "m_slots q1 = m_slots q" "m_capacity q1 = m_capacity q" "m_padding q1 = m_padding q"
    by auto
  from pop_ring [OF f(1,2)] obtain q2 where
    p: "ring_inv q2 Rc (Suc Rn) Wc1 Wn xs" "m_slots q2 = (m_slots q1)[slot_of q1 Rn := None]"
    by auto
  from f(1) lt have s: "slot_of q1 Rn < length (m_slots q1)" "m_slots q1 ! slot_of q1 Rn = Some x"
    by (auto simp: ring_inv_def slots_inv_def)
  from filter_update_None [OF s] Cons.IH [OF p(1)] p(2) f(3) show ?case
    by (simp add: constructed_def)
qed

lemma step_capacity:
  "try_emplace q v = Inr (ok, q1) \<Longrightarrow> m_capacity q1 = m_capacity q"
  "emplace q v = Some (Inr q2) \<Longrightarrow> m_capacity q2 = m_capacity q"
  "front q = (p, q3) \<Longrightarrow> m_capacity q3 = m_capacity q"
  "pop q = Inr (x, q4) \<Longrightarrow> m_capacity q4 = m_capacity q"
proof -
  show t: "m_capacity q1 = m_capacity q" if "try_emplace q v = Inr (ok, q1)" for ok q1
    using that
    by (auto simp: try_emplace_def Let_def construct_and_publish_def split: if_splits)
  show "m_capacity q2 = m_capacity q" if "emplace q v = Some (Inr q2)"
    using that t [of True q2] by (auto simp: emplace_try_emplace split: sum.splits if_splits)
  show "m_capacity q3 = m_capacity q" if "front q = (p, q3)"
    using that by (auto simp: front_def Let_def split: if_splits)
  show "m_capacity q4 = m_capacity q" if "pop q = Inr (x, q4)"
    using that by (auto simp: pop_def Let_def split: if_splits option.splits)
qed

section \<open>The claims\<close>

text \<open>
  C1 (FIFO order). A queue is constructed and a sequence \<open>ops\<close> of \<^verbatim>\<open>push(v)\<close> and of
  removes (\<^verbatim>\<open>front()\<close>, a read through the pointer, \<^verbatim>\<open>pop()\<close>) runs on it, each call
  completing before the next starts. Whenever the run completes, the values read are the
  values pushed, in the order of the pushes: the first \<open>pops ops\<close> of them, and all of them
  when there are as many removes as inserts. A complete run has every element inserted
  before it is removed (a \<^verbatim>\<open>pop\<close> on an empty queue fails its assertion) and never more
  than \<^verbatim>\<open>capacity()\<close> elements waiting (a \<^verbatim>\<open>push\<close> into a full queue spins until a remove
  completes, so it cannot complete before one). Every such sequence does complete, when
  the requested capacity is below \<^verbatim>\<open>SIZE_MAX\<close> and the allocator returns the slots asked
  for.
\<close>

theorem fifo_order:
  assumes "SPSCQueue_ctor sizeofT al c = Inr q0"
  shows "(run q0 ops = Some (Inr (obs, q')) \<longrightarrow>
            obs = map Some (take (pops ops) (pushed ops))
            \<and> (pops ops = length (pushed ops) \<longrightarrow> obs = map Some (pushed ops)))
       \<and> (c \<noteq> SIZE_MAX \<and> allocator_contract al \<and> feasible (unat (capacity q0)) 0 ops \<longrightarrow>
            (\<exists>obs q'. run q0 ops = Some (Inr (obs, q'))))"
proof -
  note i = ring_inv_ctor [OF assms]
  have "obs = map Some (take (pops ops) (pushed ops))
      \<and> (pops ops = length (pushed ops) \<longrightarrow> obs = map Some (pushed ops))"
    if "run q0 ops = Some (Inr (obs, q'))"
    using run_ring [OF i that] by auto
  moreover have "\<exists>obs q'. run q0 ops = Some (Inr (obs, q'))"
    if "c \<noteq> SIZE_MAX" "allocator_contract al" "feasible (unat (capacity q0)) 0 ops"
    using run_progress [OF i ctor_storage_ok [OF assms that(1,2)]] that(3) by simp
  ultimately show ?thesis by blast
qed

theorem fifo_order_witness:
  "SPSCQueue_ctor 64 ex_alloc 2 = Inr ex0
   \<and> run ex0 ex_ops = Some (Inr ([Some 1, Some 2, Some 3], ex4))
   \<and> pushed ex_ops = [1, 2, 3] \<and> pops ex_ops = length (pushed ex_ops)
   \<and> [Some 1, Some 2, Some 3] = map Some (pushed ex_ops)
   \<and> (2 :: size_t) \<noteq> SIZE_MAX \<and> allocator_contract ex_alloc
   \<and> feasible (unat (capacity ex0)) 0 ex_ops
   \<and> (\<exists>obs q'. run ex0 ex_ops = Some (Inr (obs, q')))"
proof -
  have c: "(2 :: size_t) \<noteq> SIZE_MAX" by (simp add: SIZE_MAX_def)
  have a: "allocator_contract ex_alloc" by (simp add: allocator_contract_def ex_alloc_def)
  have f: "feasible (unat (capacity ex0)) 0 ex_ops" by (simp add: capacity_def ex0_def ex_ops_def)
  have p: "pushed ex_ops = [1, 2, 3]" "pops ex_ops = length (pushed ex_ops)"
    by (simp_all add: ex_ops_def)
  from fifo_order [OF ex0_ctor, of ex_ops "[Some 1, Some 2, Some 3]" ex4] ex_run c a f p
  have "[Some 1, Some 2, Some 3] = map Some (pushed ex_ops)"
      "\<exists>obs q'. run ex0 ex_ops = Some (Inr (obs, q'))"
    by simp_all
  with ex0_ctor ex_run c a f p show ?thesis by simp
qed

text \<open>
  The capacity bound does not hold of the requested capacity: constructed with capacity
  1 from an allocator whose \<^verbatim>\<open>allocate_at_least\<close> returns one slot more than asked for,
  the queue accepts two elements, where the claim has the second \<^verbatim>\<open>try_push\<close> fail.
\<close>

theorem capacity_bound_counterexample:
  "SPSCQueue_ctor 64 ex_at_least 1 = Inr exb0
   \<and> map_sum id fst (try_push_all exb0 [10, 20]) = Inr [True, True]
   \<and> map_sum id fst (try_push_all exb0 [10, 20]) \<noteq> Inr (replicate 1 True @ [False])"
  using exb0_ctor
  by (simp add: try_push_def try_emplace_def construct_and_publish_def exb0_def Let_def)

text \<open>
  C2 (capacity bound, amended). For a queue constructed with a requested capacity other
  than \<^verbatim>\<open>SIZE_MAX\<close> from an allocator that returns at least the slots asked for, let \<open>C\<close>
  be the value \<^verbatim>\<open>capacity()\<close> reports. With no removes, the \<open>i\<close>-th of any number of
  consecutive \<^verbatim>\<open>try_push\<close> calls returns true exactly when \<open>i \<le> C\<close>: exactly \<open>C\<close> calls
  succeed and call \<open>C + 1\<close> returns false. \<open>C\<close> is the requested capacity coerced to at
  least 1 when that is below \<^verbatim>\<open>SIZE_MAX - 2 * _padding\<close> and the allocator returns exactly
  the slots asked for.
\<close>

theorem capacity_bound:
  assumes "SPSCQueue_ctor sizeofT al c = Inr q0" and "c \<noteq> SIZE_MAX"
    and "allocator_contract al"
  shows "(\<exists>q'. try_push_all q0 vs = Inr (map (\<lambda>i. i < unat (capacity q0)) [0..<length vs], q'))
       \<and> (length vs = Suc (unat (capacity q0)) \<longrightarrow>
            (\<exists>q'. try_push_all q0 vs = Inr (replicate (unat (capacity q0)) True @ [False], q')))
       \<and> (exact_allocation al \<and> max c 1 < SIZE_MAX - 2 * padding sizeofT \<longrightarrow>
            capacity q0 = max c 1)"
proof -
  from try_push_all_ring [OF ring_inv_ctor [OF assms(1)] ctor_storage_ok [OF assms], of vs]
  obtain q' where
    r: "try_push_all q0 vs = Inr (map (\<lambda>i. i < unat (capacity q0)) [0..<length vs], q')"
    by auto
  then show ?thesis
    using map_less_upt [of "unat (capacity q0)"] ctor_capacity_exact(1) [OF assms(1)] by auto
qed

theorem capacity_bound_witness:
  "SPSCQueue_ctor 64 ex_alloc 2 = Inr ex0 \<and> (2 :: size_t) \<noteq> SIZE_MAX
   \<and> allocator_contract ex_alloc \<and> length [10, 20, 30 :: nat] = Suc (unat (capacity ex0))
   \<and> (\<exists>q'. try_push_all ex0 [10, 20, 30] = Inr ([True, True, False], q'))
   \<and> exact_allocation ex_alloc \<and> max 2 1 < SIZE_MAX - 2 * padding 64 \<and> capacity ex0 = 2"
proof -
  have c: "(2 :: size_t) \<noteq> SIZE_MAX" by (simp add: SIZE_MAX_def)
  have a: "allocator_contract ex_alloc" by (simp add: allocator_contract_def ex_alloc_def)
  have e: "exact_allocation ex_alloc" by (simp add: exact_allocation_def ex_alloc_def)
  have m: "max 2 1 < SIZE_MAX - 2 * padding 64" by (simp add: padding_64 SIZE_MAX_def)
  have l: "unat (capacity ex0) = 2" by (simp add: capacity_def ex0_def)
  from capacity_bound [OF ex0_ctor c a, of "[10, 20, 30]"] l ex0_ctor c a e m
  show ?thesis by (simp add: numeral_2_eq_2)
qed

text \<open>
  C3 (non-blocking insert). In every state whose write slot lies inside the allocated
  storage, \<^verbatim>\<open>try_emplace\<close> returns (it is a total function with no loop, and its result is
  no error): the cached read index afterwards is the old one, or the read index when the
  old one indicated a full queue (one refresh at most); the call returns false exactly
  when the next write index equals that cached value, and then the state is unchanged;
  otherwise the element is constructed in the write slot, the next write index is
  published and the call returns true. In a reachable state it returns true exactly
  when fewer than \<^verbatim>\<open>capacity()\<close> elements are in the queue. (The write slot lies inside
  the storage in every reachable state of a queue whose storage holds the ring, lemmas
  \<open>reach_write_slot_in_bounds\<close> and \<open>ctor_storage_ok\<close>.)
\<close>

theorem try_emplace_nonblocking:
  assumes "unat (m_writeIndex q + m_padding q) < length (m_slots q)"
  shows "\<exists>ok q'. try_emplace q v = Inr (ok, q')
      \<and> m_readIndexCache q' =
          (if next_index (m_capacity q) (m_writeIndex q) = m_readIndexCache q
           then m_readIndex q else m_readIndexCache q)
      \<and> ok = (next_index (m_capacity q) (m_writeIndex q) \<noteq> m_readIndexCache q')
      \<and> q' = (if ok
               then q\<lparr>m_readIndexCache := m_readIndexCache q',
                      m_slots := (m_slots q)[unat (m_writeIndex q + m_padding q) := Some v],
                      m_writeIndex := next_index (m_capacity q) (m_writeIndex q)\<rparr>
               else q)
      \<and> (reach q xs b \<longrightarrow> ok = (length xs < unat (capacity q)))"
proof -
  define nxt where "nxt = next_index (m_capacity q) (m_writeIndex q)"
  define rc where "rc = (if nxt = m_readIndexCache q then m_readIndex q else m_readIndexCache q)"
  define ok where "ok = (nxt \<noteq> rc)"
  define q' where "q' = (if ok
      then q\<lparr>m_readIndexCache := rc,
             m_slots := (m_slots q)[unat (m_writeIndex q + m_padding q) := Some v],
             m_writeIndex := nxt\<rparr>
      else q)"
  have n: "(if m_writeIndex q + 1 = m_capacity q then 0 else m_writeIndex q + 1) = nxt"
    by (simp add: nxt_def next_index_def)
  have same: "q\<lparr>m_readIndexCache := m_readIndex q\<rparr> = q" if "m_readIndexCache q = m_readIndex q"
    using that by (cases q) simp
  have r: "try_emplace q v = Inr (ok, q')"
    using assms same
    by (auto simp: try_emplace_def Let_def n construct_and_publish_def ok_def rc_def q'_def)
  have c: "m_readIndexCache q' = rc" by (auto simp: q'_def rc_def ok_def)
  have s: "ok = (length xs < unat (capacity q))" if "reach q xs b"
  proof -
    from reach_ring [OF that] obtain Rc Rn Wc Wn where i: "ring_inv q Rc Rn Wc Wn xs" by blast
    then have l: "length xs = Wn - Rn" "Rn \<le> Wn" "Wn < Rn + modulus (m_capacity q)"
      by (simp_all add: ring_inv_def slots_inv_def)
    from try_emplace_ring [OF i r] have "ok \<longleftrightarrow> Suc Wn \<noteq> Rn + modulus (m_capacity q)" by simp
    with l show ?thesis by (simp add: capacity_modulus) arith
  qed
  have c': "m_readIndexCache q' =
      (if nxt = m_readIndexCache q then m_readIndex q else m_readIndexCache q)"
    using c by (simp add: rc_def)
  have o: "ok = (nxt \<noteq> m_readIndexCache q')" using c by (simp add: ok_def)
  have e: "q' = (if ok
      then q\<lparr>m_readIndexCache := m_readIndexCache q',
             m_slots := (m_slots q)[unat (m_writeIndex q + m_padding q) := Some v],
             m_writeIndex := nxt\<rparr>
      else q)"
    unfolding c by (simp add: q'_def)
  from r c' o e s show ?thesis
    unfolding nxt_def [symmetric] by blast
qed

theorem try_emplace_nonblocking_witness:
  "unat (m_writeIndex ex1 + m_padding ex1) < length (m_slots ex1) \<and> reach ex1 [10] False
   \<and> try_emplace ex1 20 = Inr (True, ex2) \<and> length [10 :: nat] < unat (capacity ex1)
   \<and> unat (m_writeIndex ex2 + m_padding ex2) < length (m_slots ex2) \<and> reach ex2 [10, 20] False
   \<and> try_emplace ex2 30 = Inr (False, ex2) \<and> \<not> length [10, 20 :: nat] < unat (capacity ex2)"
proof -
  have 1: "unat (m_writeIndex ex1 + m_padding ex1) < length (m_slots ex1)" by (simp add: ex1_def)
  have 2: "unat (m_writeIndex ex2 + m_padding ex2) < length (m_slots ex2)" by (simp add: ex2_def)
  from try_emplace_nonblocking [OF 1, of 20 "[10]" False] ex1_reach ex2_step
  have "length [10 :: nat] < unat (capacity ex1)" by auto
  moreover from try_emplace_nonblocking [OF 2, of 30 "[10, 20]" False] ex2_reach ex2_full
  have "\<not> length [10, 20 :: nat] < unat (capacity ex2)" by auto
  ultimately show ?thesis using 1 2 ex1_reach ex2_reach ex2_step ex2_full by simp
qed

text \<open>
  C4 (peek and empty). In every reachable state, with \<open>xs\<close> the elements inserted and not
  yet removed: \<^verbatim>\<open>front()\<close> returns the null pointer exactly when \<open>xs\<close> is empty, and so does
  \<^verbatim>\<open>empty()\<close> return true; otherwise \<^verbatim>\<open>front()\<close> returns a pointer to a slot inside the
  storage that holds the oldest element of \<open>xs\<close>. Immediately after construction
  \<^verbatim>\<open>empty()\<close> is true and \<^verbatim>\<open>front()\<close> is null.
\<close>

theorem front_null_iff_empty:
  assumes "reach q xs b"
  shows "(fst (front q) = None \<longleftrightarrow> xs = []) \<and> (emptyQ q \<longleftrightarrow> xs = [])
       \<and> (xs \<noteq> [] \<longrightarrow> (\<exists>p. fst (front q) = Some p \<and> p < length (m_slots q)
              \<and> m_slots q ! p = Some (hd xs)))
       \<and> (SPSCQueue_ctor sizeofT al c = Inr q0 \<longrightarrow> emptyQ q0 \<and> fst (front q0) = None)"
proof -
  from reach_ring [OF assms] obtain Rc Rn Wc Wn where "ring_inv q Rc Rn Wc Wn xs" by blast
  note 1 = front_of_ring [OF this]
  have "emptyQ q0 \<and> fst (front q0) = None" if "SPSCQueue_ctor sizeofT al c = Inr q0"
    using front_of_ring [OF ring_inv_ctor [OF that]] by simp
  with 1 show ?thesis by blast
qed

theorem front_null_iff_empty_witness:
  "reach ex2 [10, 20] False \<and> fst (front ex2) = Some 1 \<and> m_slots ex2 ! 1 = Some 10
   \<and> \<not> emptyQ ex2 \<and> SPSCQueue_ctor 64 ex_alloc 2 = Inr ex0 \<and> emptyQ ex0
   \<and> fst (front ex0) = None"
proof -
  from front_null_iff_empty [OF ex2_reach, of 64 ex_alloc 2 ex0] ex0_ctor ex2_front
  have "m_slots ex2 ! 1 = Some 10" "\<not> emptyQ ex2" "emptyQ ex0" "fst (front ex0) = None"
    by auto
  with ex2_reach ex2_front ex0_ctor show ?thesis by simp
qed

text \<open>
  \<^verbatim>\<open>capacity()\<close> is not always the requested capacity: a request of \<^verbatim>\<open>SIZE_MAX - 1\<close> is
  clamped (with a padding of one slot, to \<^verbatim>\<open>SIZE_MAX - 3\<close>), and a request of 1 served by
  an \<^verbatim>\<open>allocate_at_least\<close> that returns one slot more reports 2.
\<close>

theorem capacity_reported_counterexample:
  "map_sum id capacity (SPSCQueue_ctor 64 ex_alloc (SIZE_MAX - 1) :: error + nat SPSCQueue)
     = Inr (SIZE_MAX - 3)
   \<and> SIZE_MAX - 3 \<noteq> max (SIZE_MAX - 1) 1
   \<and> map_sum id capacity (SPSCQueue_ctor 64 ex_at_least 1 :: error + nat SPSCQueue) = Inr 2
   \<and> (2 :: size_t) \<noteq> max 1 1"
  by (simp add: SPSCQueue_ctor_def ex_alloc_def ex_at_least_def padding_64 SIZE_MAX_def Let_def
      capacity_def max_def)

text \<open>
  C5 (reported capacity, amended). When the allocator returns exactly the slots asked
  for, \<^verbatim>\<open>capacity()\<close> returns the requested capacity coerced to at least 1 if that is
  below \<^verbatim>\<open>SIZE_MAX - 2 * _padding\<close>, and the clamp \<^verbatim>\<open>SIZE_MAX - 2 * _padding - 1\<close> for
  every larger request other than \<^verbatim>\<open>SIZE_MAX\<close>. In every case no member function changes
  the value \<^verbatim>\<open>capacity()\<close> returns.
\<close>

theorem capacity_reported:
  "(SPSCQueue_ctor sizeofT al c = Inr q0 \<and> exact_allocation al
      \<and> max c 1 < SIZE_MAX - 2 * padding sizeofT \<longrightarrow> capacity q0 = max c 1)
   \<and> (SPSCQueue_ctor sizeofT' al' c' = Inr q0' \<and> exact_allocation al' \<and> c' \<noteq> SIZE_MAX
      \<and> \<not> max c' 1 < SIZE_MAX - 2 * padding sizeofT' \<longrightarrow>
        capacity q0' = SIZE_MAX - 2 * padding sizeofT' - 1)
   \<and> (try_emplace q v = Inr (ok, q1) \<longrightarrow> capacity q1 = capacity q)
   \<and> (emplace q v = Some (Inr q2) \<longrightarrow> capacity q2 = capacity q)
   \<and> (front q = (p, q3) \<longrightarrow> capacity q3 = capacity q)
   \<and> (pop q = Inr (x, q4) \<longrightarrow> capacity q4 = capacity q)"
proof -
  have "capacity q0 = max c 1"
    if "SPSCQueue_ctor sizeofT al c = Inr q0" "exact_allocation al"
      "max c 1 < SIZE_MAX - 2 * padding sizeofT"
    using that by (rule ctor_capacity_exact(1))
  moreover have "capacity q0' = SIZE_MAX - 2 * padding sizeofT' - 1"
    if "SPSCQueue_ctor sizeofT' al' c' = Inr q0'" "exact_allocation al'" "c' \<noteq> SIZE_MAX"
      "\<not> max c' 1 < SIZE_MAX - 2 * padding sizeofT'"
    using that by (rule ctor_capacity_exact(2))
  moreover have "capacity q1 = capacity q" if "try_emplace q v = Inr (ok, q1)"
    using step_capacity(1) [OF that] by (simp add: capacity_def)
  moreover have "capacity q2 = capacity q" if "emplace q v = Some (Inr q2)"
    using step_capacity(2) [OF that] by (simp add: capacity_def)
  moreover have "capacity q3 = capacity q" if "front q = (p, q3)"
    using step_capacity(3) [OF that] by (simp add: capacity_def)
  moreover have "capacity q4 = capacity q" if "pop q = Inr (x, q4)"
    using step_capacity(4) [OF that] by (simp add: capacity_def)
  ultimately show ?thesis by blast
qed

theorem capacity_reported_witness:
  "SPSCQueue_ctor 64 ex_alloc 2 = Inr ex0 \<and> exact_allocation ex_alloc
   \<and> max 2 1 < SIZE_MAX - 2 * padding 64 \<and> capacity ex0 = max 2 1
   \<and> SPSCQueue_ctor 64 ex_alloc (SIZE_MAX - 1) = Inr exc0 \<and> SIZE_MAX - 1 \<noteq> SIZE_MAX
   \<and> \<not> max (SIZE_MAX - 1) 1 < SIZE_MAX - 2 * padding 64
   \<and> capacity exc0 = SIZE_MAX - 2 * padding 64 - 1
   \<and> try_emplace ex1 20 = Inr (True, ex2) \<and> capacity ex2 = capacity ex1
   \<and> emplace ex1 20 = Some (Inr ex2)
   \<and> front ex2 = (Some 1, ex2f) \<and> capacity ex2f = capacity ex2
   \<and> pop ex2f = Inr (10, ex3) \<and> capacity ex3 = capacity ex2f"
proof -
  have a: "exact_allocation ex_alloc" by (simp add: exact_allocation_def ex_alloc_def)
  have l: "max 2 1 < SIZE_MAX - 2 * padding 64" by (simp add: padding_64 SIZE_MAX_def)
  have n: "SIZE_MAX - 1 \<noteq> SIZE_MAX" by (simp add: SIZE_MAX_def)
  have g: "\<not> max (SIZE_MAX - 1) 1 < SIZE_MAX - 2 * padding 64"
    by (simp add: padding_64 SIZE_MAX_def max_def word_less_nat_alt word_le_nat_alt)
  have e: "emplace ex1 20 = Some (Inr ex2)" by (simp add: emplace_try_emplace ex2_step)
  from capacity_reported [where sizeofT = 64 and al = ex_alloc and c = 2 and ?q0.0 = ex0
      and sizeofT' = 64 and al' = ex_alloc and c' = "SIZE_MAX - 1" and q0' = exc0
      and q = ex1 and v = 20 and ok = True and ?q1.0 = ex2 and ?q2.0 = ex2
      and p = None and ?q3.0 = ex1 and x = 0 and ?q4.0 = ex1]
    ex0_ctor a l exc0_ctor n g ex2_step e
  have 1: "capacity ex0 = max 2 1" "capacity exc0 = SIZE_MAX - 2 * padding 64 - 1"
      "capacity ex2 = capacity ex1"
    by simp_all
  from capacity_reported [where sizeofT = 64 and al = ex_alloc and c = 2 and ?q0.0 = ex0
      and sizeofT' = 64 and al' = ex_alloc and c' = "SIZE_MAX - 1" and q0' = exc0
      and q = ex2 and v = 30 and ok = False and ?q1.0 = ex2 and ?q2.0 = ex2
      and p = "Some 1" and ?q3.0 = ex2f and x = 0 and ?q4.0 = ex2]
    ex2_front
  have 2: "capacity ex2f = capacity ex2" by simp
  from capacity_reported [where sizeofT = 64 and al = ex_alloc and c = 2 and ?q0.0 = ex0
      and sizeofT' = 64 and al' = ex_alloc and c' = "SIZE_MAX - 1" and q0' = exc0
      and q = ex2f and v = 30 and ok = False and ?q1.0 = ex2 and ?q2.0 = ex2
      and p = None and ?q3.0 = ex2 and x = 10 and ?q4.0 = ex3]
    ex2f_pop
  have 3: "capacity ex3 = capacity ex2f" by simp
  from 1 2 3 ex0_ctor a l exc0_ctor n g ex2_step e ex2_front ex2f_pop show ?thesis by simp
qed

text \<open>
  C6 (overflow clamping at construction). The claim fails at the requested capacity
  \<^verbatim>\<open>SIZE_MAX\<close>: \<^verbatim>\<open>_capacity++\<close> wraps around to 0 before the clamp is tested, so the
  internal capacity is 0 and not the clamped \<^verbatim>\<open>SIZE_MAX - 2 * _padding\<close>; only the padding
  is allocated, and \<^verbatim>\<open>capacity()\<close> reports \<^verbatim>\<open>SIZE_MAX\<close>.
\<close>

theorem constructor_wraps_at_SIZE_MAX:
  "SPSCQueue_ctor 64 ex_alloc SIZE_MAX = Inr exw0 \<and> m_capacity exw0 = 0
   \<and> length (m_slots exw0) = 2 \<and> capacity exw0 = SIZE_MAX
   \<and> m_capacity exw0 \<noteq> SIZE_MAX - 2 * padding 64
   \<and> map_sum id m_capacity (SPSCQueue_ctor 4 ex_alloc SIZE_MAX :: error + nat SPSCQueue) = Inr 0
   \<and> map_sum id (\<lambda>q. length (m_slots q))
        (SPSCQueue_ctor 4 ex_alloc SIZE_MAX :: error + nat SPSCQueue) = Inr 32"
  using exw0_ctor
  by (simp add: exw0_def capacity_def SIZE_MAX_def padding_64)
    (simp add: SPSCQueue_ctor_def ex_alloc_def padding_def cacheLineSize_def SIZE_MAX_def
      Let_def)

text \<open>
  C7 (size bound). In every reachable state \<^verbatim>\<open>0 <= size()\<close> and \<^verbatim>\<open>size() <= capacity()\<close>,
  for the value \<^verbatim>\<open>size()\<close> returns: the difference of the cursors, with the internal
  capacity added when it is negative as a \<^verbatim>\<open>ptrdiff_t\<close>, cast to \<^verbatim>\<open>size_t\<close>. With an
  internal capacity of at most \<open>2 ^ 63\<close> that value is the number of elements in the
  queue.
\<close>

theorem size_bounded_by_capacity:
  assumes "reach q xs b"
  shows "0 \<le> sizeQ q \<and> sizeQ q \<le> capacity q
       \<and> (unat (m_capacity q) \<le> 2 ^ 63 \<longrightarrow> unat (sizeQ q) = length xs)"
proof -
  from reach_ring [OF assms] obtain Rc Rn Wc Wn where i: "ring_inv q Rc Rn Wc Wn xs" by blast
  from size_of_ring [OF i] size_counts_elements [OF i] show ?thesis by simp
qed

theorem size_bounded_by_capacity_witness:
  "reach ex3 [20] False \<and> sizeQ ex3 = 1 \<and> capacity ex3 = 2 \<and> sizeQ ex3 \<le> capacity ex3
   \<and> unat (m_capacity ex3) \<le> 2 ^ 63 \<and> unat (sizeQ ex3) = length [20 :: nat]"
proof -
  have v: "sizeQ ex3 = 1" "capacity ex3 = 2" by (simp_all add: sizeQ_def capacity_def ex3_def)
  have c: "unat (m_capacity ex3) \<le> 2 ^ 63" by (simp add: ex3_def)
  from size_bounded_by_capacity [OF ex3_reach] c
  have "sizeQ ex3 \<le> capacity ex3" "unat (sizeQ ex3) = length [20 :: nat]" by simp_all
  with v c ex3_reach show ?thesis by simp
qed

text \<open>
  C8 (cursor range). The claim fails in the states of a queue constructed with the
  requested capacity \<^verbatim>\<open>SIZE_MAX\<close>: the allocated bound \<^verbatim>\<open>_capacity\<close> is 0, so neither
  cursor is below it, the write index advances to 1 with the first insert without
  wrapping, and the second insert writes outside the storage.
\<close>

theorem cursors_outside_range_at_SIZE_MAX:
  "SPSCQueue_ctor 64 ex_alloc SIZE_MAX = Inr exw0
   \<and> \<not> m_readIndex exw0 < m_capacity exw0 \<and> \<not> m_writeIndex exw0 < m_capacity exw0
   \<and> try_emplace exw0 7 = Inr (True, exw1)
   \<and> m_writeIndex exw1 = 1 \<and> \<not> m_writeIndex exw1 < m_capacity exw1
   \<and> try_emplace exw1 8 = Inl OutOfBounds"
  using exw0_ctor exw1_step exw1_oob by (simp add: exw0_def exw1_def)

text \<open>
  C9 (destructor drains). In every reachable state, with \<open>xs\<close> the \<open>K\<close> elements inserted
  and not yet removed: exactly \<open>K\<close> slots are constructed, and the destructor (the loop
  \<^verbatim>\<open>while (front()) pop();\<close>) returns without an error, having run the element
  destructor on exactly the elements of \<open>xs\<close>, oldest first, and never on raw memory;
  afterwards no slot is constructed and \<^verbatim>\<open>front()\<close> is null.
\<close>

theorem destructor_drains:
  assumes "reach q xs b"
  shows "constructed q = length xs
       \<and> (\<exists>q'. SPSCQueue_dtor q = Inr (xs, q') \<and> constructed q' = 0
              \<and> (\<forall>s \<in> set (m_slots q'). s = None) \<and> fst (front q') = None)"
proof -
  from reach_ring [OF assms] obtain Rc Rn Wc Wn where i: "ring_inv q Rc Rn Wc Wn xs" by blast
  from dtor_ring [OF i] obtain q' Wc' where
    d: "SPSCQueue_dtor q = Inr (xs, q')" "ring_inv q' Rc Wn Wc' Wn []"
    by blast
  from constructed_ring [OF i] constructed_ring [OF d(2)] ring_empty_raw [OF d(2)]
    front_of_ring [OF d(2)] d(1)
  show ?thesis by auto
qed

theorem destructor_drains_witness:
  "reach ex2 [10, 20] False \<and> constructed ex2 = 2
   \<and> (\<exists>q'. SPSCQueue_dtor ex2 = Inr ([10, 20], q') \<and> constructed q' = 0)"
proof -
  from destructor_drains [OF ex2_reach] ex2_reach show ?thesis by auto
qed

text \<open>
  C10 (failure atomicity). Whenever \<^verbatim>\<open>try_emplace\<close> returns false, the state after the
  call is the state before it: no slot is written, both cursors, both caches and the
  capacity keep their values (the refresh of the cached read index stores the value it
  already has), and \<^verbatim>\<open>size()\<close>, \<^verbatim>\<open>empty()\<close> and \<^verbatim>\<open>front()\<close> answer as before.
\<close>

theorem try_emplace_false_unchanged:
  assumes "try_emplace q v = Inr (False, q')"
  shows "q' = q
       \<and> m_slots q' = m_slots q \<and> m_writeIndex q' = m_writeIndex q \<and> m_readIndex q' = m_readIndex q
       \<and> m_writeIndexCache q' = m_writeIndexCache q \<and> m_capacity q' = m_capacity q
       \<and> sizeQ q' = sizeQ q \<and> emptyQ q' = emptyQ q \<and> capacity q' = capacity q
       \<and> front q' = front q
       \<and> m_readIndexCache q' = m_readIndex q"
proof -
  from assms have "q' = q\<lparr>m_readIndexCache := m_readIndex q\<rparr>"
      and "m_readIndexCache q = m_readIndex q"
    by (auto simp: try_emplace_def construct_and_publish_def Let_def split: if_splits)
  moreover from this(2) have "q\<lparr>m_readIndexCache := m_readIndex q\<rparr> = q" by (cases q) simp
  ultimately show ?thesis by simp
qed

theorem try_emplace_false_unchanged_witness:
  "try_emplace ex2 30 = Inr (False, ex2) \<and> sizeQ ex2 = 2 \<and> \<not> emptyQ ex2
   \<and> m_readIndexCache ex2 = m_readIndex ex2"
proof -
  from try_emplace_false_unchanged [OF ex2_full] have "m_readIndexCache ex2 = m_readIndex ex2"
    by simp
  moreover have "sizeQ ex2 = 2" "\<not> emptyQ ex2" by (simp_all add: sizeQ_def emptyQ_def ex2_def)
  ultimately show ?thesis using ex2_full by simp
qed

end
